theory Spec2Isabelle
  imports Complex_Main
begin

section \<open>Strings and characters\<close>

text \<open>
  A JavaScript string is a sequence of UTF-16 code units. The model works on
  \<^typ>\<open>string\<close>, whose characters are the code units U+0000 to U+00FF (Latin-1);
  the character classes and the case mapping below are those of ECMAScript on that range.
\<close>

definition dq :: char where
  "dq = CHR 0x22"

definition dot :: char where
  "dot = CHR ''.''"

text \<open>The class \<open>\w\<close>: \<open>[A-Za-z0-9_]\<close>.\<close>

definition isWordChar :: "char \<Rightarrow> bool" where
  "isWordChar c =
     (let n = (of_char c :: nat)
      in (48 \<le> n \<and> n \<le> 57) \<or> (65 \<le> n \<and> n \<le> 90) \<or> n = 95 \<or> (97 \<le> n \<and> n \<le> 122))"

text \<open>The class \<open>[a-zA-Z_]\<close>.\<close>

definition isIdentStart :: "char \<Rightarrow> bool" where
  "isIdentStart c =
     (let n = (of_char c :: nat)
      in (65 \<le> n \<and> n \<le> 90) \<or> n = 95 \<or> (97 \<le> n \<and> n \<le> 122))"

text \<open>
  The class \<open>\s\<close>, which is also what \<open>String.prototype.trim\<close> removes: TAB, LF, VT,
  FF, CR, SPACE and NO-BREAK SPACE are its members below U+0100.
\<close>

definition isSpaceChar :: "char \<Rightarrow> bool" where
  "isSpaceChar c =
     (let n = (of_char c :: nat) in (9 \<le> n \<and> n \<le> 13) \<or> n = 32 \<or> n = 160)"

text \<open>
  \<open>toLowerCase\<close>: the letters A-Z, and the Latin-1 capitals U+00C0 to U+00DE without the
  multiplication sign U+00D7, move up by 32; every other code unit stays.
\<close>

definition toLowerChar :: "char \<Rightarrow> char" where
  "toLowerChar c =
     (let n = (of_char c :: nat)
      in if (65 \<le> n \<and> n \<le> 90) \<or> (192 \<le> n \<and> n \<le> 222 \<and> n \<noteq> 215)
         then char_of (n + 32) else c)"

definition toLowerCase :: "string \<Rightarrow> string" where
  "toLowerCase s = map toLowerChar s"

text \<open>
  Canonicalisation of a code unit under the \<open>i\<close> flag (without the \<open>u\<close> flag) is
  \<open>toUpperCase\<close>, except that a code unit above U+007F never becomes an ASCII one. Against
  the ASCII letters of a pattern only the mapping of a-z matters.
\<close>

definition canonicalize :: "char \<Rightarrow> char" where
  "canonicalize c =
     (let n = (of_char c :: nat) in if 97 \<le> n \<and> n \<le> 122 then char_of (n - 32) else c)"

text \<open>\<open>s.split(d)\<close> for a one-character separator: never the empty list.\<close>

fun splitOn :: "char \<Rightarrow> string \<Rightarrow> string list" where
  "splitOn d [] = [[]]"
| "splitOn d (c # cs) =
     (if c = d then [] # splitOn d cs
      else (case splitOn d cs of [] \<Rightarrow> [[c]] | p # ps \<Rightarrow> (c # p) # ps))"

text \<open>\<open>s.replace(/"/g, '')\<close>.\<close>

definition stripQuotes :: "string \<Rightarrow> string" where
  "stripQuotes s = filter (\<lambda>c. c \<noteq> dq) s"

text \<open>\<open>t.endsWith(suf)\<close>.\<close>

definition endsWith :: "string \<Rightarrow> string \<Rightarrow> bool" where
  "endsWith t suf = (length suf \<le> length t \<and> drop (length t - length suf) t = suf)"

text \<open>\<open>xs.join(sep)\<close>.\<close>

fun join :: "string \<Rightarrow> string list \<Rightarrow> string" where
  "join sep [] = []"
| "join sep [x] = x"
| "join sep (x # y # ys) = x @ sep @ join sep (y # ys)"

text \<open>
  An element of a destructured array, \<open>const [a, b] = parts\<close>: \<open>None\<close> is
  \<open>undefined\<close>, which a template literal prints as the word.
\<close>

definition nthOpt :: "'a list \<Rightarrow> nat \<Rightarrow> 'a option" where
  "nthOpt xs i = (if i < length xs then Some (xs ! i) else None)"

definition templ :: "string option \<Rightarrow> string" where
  "templ v = (case v of None \<Rightarrow> ''undefined'' | Some s \<Rightarrow> s)"

text \<open>A JavaScript \<open>Set\<close> of strings keeps insertion order and ignores a second \<open>add\<close>.\<close>

definition setAdd :: "string list \<Rightarrow> string \<Rightarrow> string list" where
  "setAdd xs x = (if x \<in> set xs then xs else xs @ [x])"

definition newSet :: "string list \<Rightarrow> string list" where
  "newSet xs = foldl setAdd [] xs"

section \<open>Regular expressions\<close>

text \<open>
  A matcher tries one regular expression at one position. It is given the code unit
  before the position (\<open>None\<close> at the start of the text) and the text from the position
  on, and returns the matched text \<open>m[0]\<close> with the captures the caller reads.
\<close>

type_synonym 'g matcher = "char option \<Rightarrow> string \<Rightarrow> (string \<times> 'g) option"

text \<open>The assertion \<open>\b\<close>: exactly one of the two neighbours is a word character.\<close>

definition wordBoundary :: "char option \<Rightarrow> string \<Rightarrow> bool" where
  "wordBoundary prev s =
     ((case prev of None \<Rightarrow> False | Some p \<Rightarrow> isWordChar p) \<noteq>
      (case s of [] \<Rightarrow> False | c # _ \<Rightarrow> isWordChar c))"

text \<open>
  \<open>[a-zA-Z_][\w]*\<close>, greedy: the identifier and the text after it. In each pattern below
  the identifier is followed by \<open>\.\<close>, by \<open>\b\<close> or by nothing, so only the longest run
  of word characters can be the match and no shorter one is ever tried with success.
\<close>

definition identAt :: "string \<Rightarrow> (string \<times> string) option" where
  "identAt s =
     (case s of
        [] \<Rightarrow> None
      | c # cs \<Rightarrow>
          if isIdentStart c then Some (c # takeWhile isWordChar cs, dropWhile isWordChar cs)
          else None)"

text \<open>
  \<open>"[^"]+"\<close>: a quote, at least one code unit that is not a quote, and the closing
  quote. The run stops at the first quote, the only place where the closing quote matches.
\<close>

definition quotedAt :: "string \<Rightarrow> (string \<times> string) option" where
  "quotedAt s =
     (case s of
        [] \<Rightarrow> None
      | q # cs \<Rightarrow>
          if q \<noteq> dq then None
          else (let body = takeWhile (\<lambda>c. c \<noteq> dq) cs
                in if body = [] then None
                   else (case dropWhile (\<lambda>c. c \<noteq> dq) cs of
                           [] \<Rightarrow> None
                         | _ # r \<Rightarrow> Some (dq # body @ [dq], r))))"

text \<open>\<open>"[^"]+"\."[^"]+"\<close>.\<close>

definition quotedPairAt :: "string \<Rightarrow> (string \<times> string) option" where
  "quotedPairAt s =
     (case quotedAt s of
        None \<Rightarrow> None
      | Some (q1, r1) \<Rightarrow>
          (case r1 of
             [] \<Rightarrow> None
           | d # r2 \<Rightarrow>
               if d \<noteq> dot then None
               else (case quotedAt r2 of
                       None \<Rightarrow> None
                     | Some (q2, r3) \<Rightarrow> Some (q1 @ [dot] @ q2, r3))))"

text \<open>
  \<open>(FROM|JOIN)\<close>, with or without the \<open>i\<close> flag: the keyword as written in the text and
  the text after it.
\<close>

definition keywordAt :: "bool \<Rightarrow> string \<Rightarrow> (string \<times> string) option" where
  "keywordAt ignoreCase s =
     (let k = take 4 s;
          u = (if ignoreCase then map canonicalize k else k)
      in if u = ''FROM'' \<or> u = ''JOIN'' then Some (k, drop 4 s) else None)"

text \<open>
  \<open>\s+\<close> before a target that starts with a quote or a letter: the whole run of white
  space, which must not be empty.
\<close>

definition spacesAt :: "string \<Rightarrow> (string \<times> string) option" where
  "spacesAt s =
     (let w = takeWhile isSpaceChar s
      in if w = [] then None else Some (w, dropWhile isSpaceChar s))"

text \<open>
  The pattern of \<open>validateSqlTables\<close>, first scan:
  \<^verbatim>\<open>/\b([a-zA-Z_][\w]*)\.([a-zA-Z_][\w]*)\b/g\<close>.
  The closing \<open>\b\<close> holds after the longest run of word characters and nowhere before.
\<close>

definition reSchemaTable :: "(string \<times> string) matcher" where
  "reSchemaTable prev s =
     (if \<not> wordBoundary prev s then None
      else (case identAt s of
              None \<Rightarrow> None
            | Some (a, r1) \<Rightarrow>
                (case r1 of
                   [] \<Rightarrow> None
                 | d # r2 \<Rightarrow>
                     if d \<noteq> dot then None
                     else (case identAt r2 of
                             None \<Rightarrow> None
                           | Some (b, r3) \<Rightarrow>
                               if wordBoundary (Some (last b)) r3
                               then Some (a @ [dot] @ b, (a, b)) else None))))"

text \<open>
  The target of the second scan of \<open>validateSqlTables\<close>, capture 2 of
  \<^verbatim>\<open>(("[^"]+")\.("[^"]+")|("[^"]+")|([a-zA-Z_][\w]*)(?:\.([a-zA-Z_][\w]*))?)\<close>:
  the alternatives in their order, the optional part taken when it matches.
\<close>

definition fromJoinTargetAt :: "string \<Rightarrow> (string \<times> string) option" where
  "fromJoinTargetAt s =
     (case quotedPairAt s of
        Some x \<Rightarrow> Some x
      | None \<Rightarrow>
          (case quotedAt s of
             Some x \<Rightarrow> Some x
           | None \<Rightarrow>
               (case identAt s of
                  None \<Rightarrow> None
                | Some (a, r1) \<Rightarrow>
                    (case r1 of
                       [] \<Rightarrow> Some (a, r1)
                     | d # r2 \<Rightarrow>
                         if d \<noteq> dot then Some (a, r1)
                         else (case identAt r2 of
                                 None \<Rightarrow> Some (a, r1)
                               | Some (b, r3) \<Rightarrow> Some (a @ [dot] @ b, r3))))))"

text \<open>
  The pattern of the second scan:
  \<^verbatim>\<open>/\b(FROM|JOIN)\s+(...)/gi\<close>; the capture read is the target \<open>fm[2]\<close>.
\<close>

definition reFromJoin :: "string matcher" where
  "reFromJoin prev s =
     (if \<not> wordBoundary prev s then None
      else (case keywordAt True s of
              None \<Rightarrow> None
            | Some (kw, r0) \<Rightarrow>
                (case spacesAt r0 of
                   None \<Rightarrow> None
                 | Some (ws, r1) \<Rightarrow>
                     (case fromJoinTargetAt r1 of
                        None \<Rightarrow> None
                      | Some (full, r2) \<Rightarrow> Some (kw @ ws @ full, full)))))"

text \<open>
  The target of \<open>qualifySqlTables\<close> with the \<open>(\b)\<close> that follows it:
  \<^verbatim>\<open>("[^"]+"\."[^"]+"|"[^"]+"|[a-zA-Z_][\w]*)(\b)\<close>.
  An alternative whose text is not followed by a word boundary fails, and the next one is
  tried.
\<close>

definition qualifyTargetAt :: "string \<Rightarrow> (string \<times> string) option" where
  "qualifyTargetAt s =
     (case (case quotedPairAt s of
              Some (t, r) \<Rightarrow> if wordBoundary (Some dq) r then Some (t, r) else None
            | None \<Rightarrow> None) of
        Some x \<Rightarrow> Some x
      | None \<Rightarrow>
          (case (case quotedAt s of
                   Some (t, r) \<Rightarrow> if wordBoundary (Some dq) r then Some (t, r) else None
                 | None \<Rightarrow> None) of
             Some x \<Rightarrow> Some x
           | None \<Rightarrow>
               (case identAt s of
                  Some (t, r) \<Rightarrow> if wordBoundary (Some (last t)) r then Some (t, r) else None
                | None \<Rightarrow> None)))"

text \<open>
  The pattern of \<open>qualifySqlTables\<close>, without the \<open>i\<close> flag:
  \<^verbatim>\<open>/\b(FROM|JOIN)\s+(...)(\b)/g\<close>. The captures are \<open>kw\<close>, \<open>target\<close> and
  \<open>tail\<close>, the last one always empty.
\<close>

definition reQualify :: "(string \<times> string \<times> string) matcher" where
  "reQualify prev s =
     (if \<not> wordBoundary prev s then None
      else (case keywordAt False s of
              None \<Rightarrow> None
            | Some (kw, r0) \<Rightarrow>
                (case spacesAt r0 of
                   None \<Rightarrow> None
                 | Some (ws, r1) \<Rightarrow>
                     (case qualifyTargetAt r1 of
                        None \<Rightarrow> None
                      | Some (target, r2) \<Rightarrow> Some (kw @ ws @ target, (kw, target, []))))))"

text \<open>
  The loop \<open>while ((m = re.exec(sql)) !== null)\<close> over a global pattern: the leftmost
  match at or after \<open>lastIndex\<close>, then on from the end of that match. The result lists
  the captures of the matches in order. (None of the patterns here matches the empty
  text; on an empty match the loop of the source would not advance.)
\<close>

function execAll :: "'g matcher \<Rightarrow> char option \<Rightarrow> string \<Rightarrow> 'g list" where
  "execAll re prev [] = (case re prev [] of None \<Rightarrow> [] | Some (m0, g) \<Rightarrow> [g])"
| "execAll re prev (c # cs) =
     (case re prev (c # cs) of
        None \<Rightarrow> execAll re (Some c) cs
      | Some (m0, g) \<Rightarrow>
          g # (if m0 = [] then []
               else execAll re (Some (last m0)) (drop (length m0) (c # cs))))"
  by pat_completeness auto
termination
  by (relation "measure (\<lambda>(re, prev, s). length s)") auto

text \<open>
  \<open>s.replace(re, f)\<close> for a global pattern: the text between the matches is kept, each
  match is replaced by what the callback returns for it.
\<close>

function replaceAll :: "'g matcher \<Rightarrow> (string \<Rightarrow> 'g \<Rightarrow> string) \<Rightarrow> char option \<Rightarrow> string \<Rightarrow> string" where
  "replaceAll re f prev [] = (case re prev [] of None \<Rightarrow> [] | Some (m0, g) \<Rightarrow> f m0 g)"
| "replaceAll re f prev (c # cs) =
     (case re prev (c # cs) of
        None \<Rightarrow> c # replaceAll re f (Some c) cs
      | Some (m0, g) \<Rightarrow>
          f m0 g @ (if m0 = [] then c # replaceAll re f (Some c) cs
                    else replaceAll re f (Some (last m0)) (drop (length m0) (c # cs))))"
  by pat_completeness auto
termination
  by (relation "measure (\<lambda>(re, f, prev, s). length s)") auto

section \<open>TableQualifier\<close>

text \<open>
  \<open>tableToSchemas\<close> is a \<open>Map\<close> from the second element of \<open>fq.split('.')\<close> (which is
  \<open>undefined\<close>, here \<open>None\<close>, when the name has no dot) to the array of names pushed
  under it.
\<close>

definition addSchema :: "(string option \<rightharpoonup> string list) \<Rightarrow> string \<Rightarrow> (string option \<rightharpoonup> string list)" where
  "addSchema tableToSchemas fq =
     (let parts = splitOn dot fq;
          schema = nthOpt parts 0;
          tbl = nthOpt parts 1;
          arr = (case tableToSchemas tbl of None \<Rightarrow> [] | Some a \<Rightarrow> a)
      in tableToSchemas(tbl \<mapsto> arr @ [templ schema @ [dot] @ templ tbl]))"

definition tableToSchemas :: "string list \<Rightarrow> (string option \<rightharpoonup> string list)" where
  "tableToSchemas allowedTables = foldl addSchema Map.empty (map toLowerCase allowedTables)"

text \<open>The second map keeps the keys whose array has exactly one element.\<close>

definition uniqueMap :: "string list \<Rightarrow> (string option \<rightharpoonup> string)" where
  "uniqueMap allowedTables tbl =
     (case tableToSchemas allowedTables tbl of
        None \<Rightarrow> None
      | Some arr \<Rightarrow> if length arr = 1 then Some (arr ! 0) else None)"

text \<open>The callback of the replacement: \<open>(m, kw, target, tail) => ...\<close>.\<close>

definition qualifyMatch :: "(string option \<rightharpoonup> string) \<Rightarrow> string \<Rightarrow> string \<times> string \<times> string \<Rightarrow> string" where
  "qualifyMatch mp m g =
     (case g of (kw, target, tail) \<Rightarrow>
        (let unquoted = stripQuotes target;
             parts = splitOn dot unquoted
         in if length parts = 1
            then (let tbl = toLowerCase (parts ! 0)
                  in (case mp (Some tbl) of
                        None \<Rightarrow> m
                      | Some fq \<Rightarrow>
                          if fq = [] then m
                          else (let ps = splitOn dot fq;
                                    schema = nthOpt ps 0;
                                    name = nthOpt ps 1
                                in kw @ '' '' @ [dq] @ templ schema @ [dq] @ [dot] @ [dq] @ templ name @ [dq] @ tail)))
            else m))"

definition qualifySqlTables :: "string \<Rightarrow> string list \<Rightarrow> string" where
  "qualifySqlTables sql allowedTables =
     replaceAll reQualify (qualifyMatch (uniqueMap allowedTables)) None sql"

section \<open>TableValidator\<close>

record validation =
  ok :: bool
  unknown :: "string list"
  noneFound :: bool
  foundTables :: "string list"

text \<open>The body of the first loop: \<open>found.add(`${m[1]}.${m[2]}`.toLowerCase())\<close>.\<close>

definition foundStep :: "string list \<Rightarrow> string \<times> string \<Rightarrow> string list" where
  "foundStep found m = (case m of (m1, m2) \<Rightarrow> setAdd found (toLowerCase (m1 @ [dot] @ m2)))"

text \<open>\<open>Array.from(set).filter(t => t.endsWith(`.${tbl}`))\<close>.\<close>

definition suffixMatches :: "string list \<Rightarrow> string \<Rightarrow> string list" where
  "suffixMatches st tbl = filter (\<lambda>t. endsWith t (dot # tbl)) st"

text \<open>The body of the second loop, for one target \<open>full = fm[2]\<close>.\<close>

definition inferStep :: "string list \<Rightarrow> string list \<Rightarrow> string \<Rightarrow> string list" where
  "inferStep st inferred full =
     (let parts = splitOn dot (stripQuotes full)
      in if length parts = 2
         then setAdd inferred (toLowerCase (parts ! 0 @ [dot] @ parts ! 1))
         else if length parts = 1
         then (let tbl = toLowerCase (parts ! 0);
                   matches = suffixMatches st tbl
               in if length matches = 1 then setAdd inferred (matches ! 0) else inferred)
         else inferred)"

definition validateSqlTables :: "string \<Rightarrow> string list \<Rightarrow> validation" where
  "validateSqlTables sql allowedTables =
     (let st = newSet (map toLowerCase allowedTables);
          found = foldl foundStep [] (execAll reSchemaTable None sql);
          unknown = filter (\<lambda>f. f \<notin> set st) found;
          noneFound = (length found = 0)
      in if noneFound
         then (let inferred = foldl (inferStep st) [] (execAll reFromJoin None sql)
               in if length inferred > 0
                  then (let found' = foldl setAdd found inferred;
                            unknown' = filter (\<lambda>f. f \<notin> set st) found';
                            noneFound' = (length found' = 0)
                        in \<lparr>ok = (length unknown' = 0 \<and> \<not> noneFound'), unknown = unknown',
                            noneFound = noneFound', foundTables = found'\<rparr>)
                  else \<lparr>ok = (length unknown = 0 \<and> \<not> noneFound), unknown = unknown,
                         noneFound = noneFound, foundTables = found\<rparr>)
         else \<lparr>ok = (length unknown = 0 \<and> \<not> noneFound), unknown = unknown,
                noneFound = noneFound, foundTables = found\<rparr>)"

section \<open>SqlExecutor\<close>

text \<open>Decimal digits of an integer, as a template literal prints a whole number.\<close>

function showDigits :: "int \<Rightarrow> string" where
  "showDigits n =
     (if n < 10 then [char_of (48 + n)] else showDigits (n div 10) @ [char_of (48 + n mod 10)])"
  by pat_completeness auto
termination
  by (relation "measure nat") auto

definition showInt :: "int \<Rightarrow> string" where
  "showInt i = (if i < 0 then CHR ''-'' # showDigits (- i) else showDigits i)"

text \<open>
  What is thrown: only \<open>err?.message\<close> is read, \<open>None\<close> when it is \<open>undefined\<close>.
\<close>

record jsError =
  message :: "string option"

text \<open>
  The database capability. \<open>connectError\<close> is what \<open>getPool().connect()\<close> throws, if it
  throws; \<open>query\<close> is \<open>client.query\<close>, the rows or what it throws; \<open>countField\<close> reads
  the field \<open>count\<close> of a row, an integer for \<open>COUNT(*)::int\<close>, \<open>None\<close> when the field
  is \<open>undefined\<close> or \<open>null\<close>. The calls made are recorded in a trace.
\<close>

record 'r database =
  connectError :: "jsError option"
  query :: "string \<Rightarrow> jsError + 'r list"
  countField :: "'r \<Rightarrow> int option"

datatype dbEvent = Connect | Query string | Release

text \<open>
  The object a node returns, merged into the state by the graph: the fields of the state
  that \<open>nodeExecuteSQL\<close> can set, \<open>None\<close> for a field the object does not have.
\<close>

record 'r update =
  rows :: "'r list"
  answer :: "string option"
  error :: "string option"

definition dbErrorAnswer :: "jsError \<Rightarrow> 'r update" where
  "dbErrorAnswer err =
     (let msg = (case message err of
                   None \<Rightarrow> ''Database error''
                 | Some m \<Rightarrow> if m = [] then ''Database error'' else m)
      in \<lparr>rows = [], answer = Some (''DB error: '' @ msg), error = None\<rparr>)"

text \<open>\<open>countRes.rows?.[0]?.count ?? 0\<close>.\<close>

definition totalOf :: "'r database \<Rightarrow> 'r list \<Rightarrow> int" where
  "totalOf db rs =
     (case rs of
        [] \<Rightarrow> 0
      | r # _ \<Rightarrow> (case countField db r of None \<Rightarrow> 0 | Some n \<Rightarrow> n))"

definition quoteIdent :: "string option \<Rightarrow> string" where
  "quoteIdent v = [dq] @ templ v @ [dq]"

text \<open>
  \<open>nodeExecuteSQL\<close>. The result is what the node returns, or \<open>Inl\<close> what it throws: the
  client is acquired before the \<open>try\<close>, so a failure there is not caught. The \<open>finally\<close>
  releases the client on every path after that.
\<close>

definition nodeExecuteSQL ::
  "'r database \<Rightarrow> string \<Rightarrow> string list \<Rightarrow> dbEvent list \<Rightarrow> (jsError + 'r update) \<times> dbEvent list" where
  "nodeExecuteSQL db sql allowedTables trace =
     (let v = validateSqlTables sql allowedTables
      in if \<not> ok v
         then (let msgError =
                     (if noneFound v
                      then ''Blocked execution. SQL must reference at least one fully-qualified allowed table.''
                      else ''Blocked execution. Unknown tables: '' @ join '', '' (unknown v))
               in (Inr \<lparr>rows = [], answer = Some msgError, error = None\<rparr>, trace))
         else (case connectError db of
                 Some e \<Rightarrow> (Inl e, trace @ [Connect])
               | None \<Rightarrow>
                   (case query db sql of
                      Inl err \<Rightarrow> (Inr (dbErrorAnswer err), trace @ [Connect, Query sql, Release])
                    | Inr res \<Rightarrow>
                        (case (if length res = 0 then nthOpt (foundTables v) 0 else None) of
                           None \<Rightarrow>
                             (Inr \<lparr>rows = res, answer = None, error = None\<rparr>,
                              trace @ [Connect, Query sql, Release])
                         | Some first \<Rightarrow>
                             if first = []
                             then (Inr \<lparr>rows = res, answer = None, error = None\<rparr>,
                                   trace @ [Connect, Query sql, Release])
                             else (let parts = splitOn dot first;
                                       schemaName = nthOpt parts 0;
                                       tableName = nthOpt parts 1;
                                       q = ''SELECT COUNT(*)::int AS count FROM '' @ quoteIdent schemaName
                                            @ [dot] @ quoteIdent tableName
                                   in (case query db q of
                                         Inl err \<Rightarrow>
                                           (Inr (dbErrorAnswer err),
                                            trace @ [Connect, Query sql, Query q, Release])
                                       | Inr countRes \<Rightarrow>
                                           (Inr \<lparr>rows = [],
                                                 answer = Some (''No results. Diagnostics: ''
                                                   @ quoteIdent schemaName @ [dot] @ quoteIdent tableName
                                                   @ '' has '' @ showInt (totalOf db countRes) @ '' rows.''),
                                                 error = None\<rparr>,
                                            trace @ [Connect, Query sql, Query q, Release])))))))"

section \<open>RagService\<close>

text \<open>\<open>question.trim()\<close>.\<close>

definition trim :: "string \<Rightarrow> string" where
  "trim s = rev (dropWhile isSpaceChar (rev (dropWhile isSpaceChar s)))"

text \<open>
  The two shapes of the object \<open>ask\<close> returns: \<open>{ ok: false, message }\<close>, and
  \<open>{ ok: true, question, sql, answer, rows }\<close> with the three fields copied from the
  state the agent returned.
\<close>

datatype 's askResponse = AskRejected string | AskAnswered string 's

fun okOf :: "'s askResponse \<Rightarrow> bool" where
  "okOf (AskRejected msg) = False"
| "okOf (AskAnswered question result) = True"

text \<open>
  \<open>RagService.ask\<close>. \<open>runSqlAgent\<close> is the compiled graph, the only place where the
  database and the completion service are called: it takes the world before and returns
  the world after, with the final state or what it throws.
\<close>

definition ask ::
  "(string \<Rightarrow> 'w \<Rightarrow> (jsError + 's) \<times> 'w) \<Rightarrow> string \<Rightarrow> 'w \<Rightarrow> (jsError + 's askResponse) \<times> 'w" where
  "ask runSqlAgent question w =
     (if question = [] \<or> length (trim question) = 0
      then (Inr (AskRejected ''Missing query parameter q''), w)
      else (case runSqlAgent question w of
              (Inl e, w') \<Rightarrow> (Inl e, w')
            | (Inr result, w') \<Rightarrow> (Inr (AskAnswered question result), w')))"

section \<open>ResultFormatter: numeric coercion and currency view\<close>

text \<open>
  A finite JavaScript number is a double: negative zero, or the rational it denotes
  (\<open>Fin 0\<close> is positive zero). \<open>Math.round\<close>, \<open>Math.abs\<close> and the comparison with 0
  are exact on doubles, so they are computed on that rational.
\<close>

datatype jsnum = NegZero | Fin rat

text \<open>
  A value of a row as \<open>toNumberMaybe\<close> and \<open>formatCLP\<close> tell it apart: a finite number,
  a number that is not finite (\<open>NaN\<close>, the infinities), a string, or anything else.
\<close>

datatype jsval = JNumber jsnum | JNotFinite | JString string | JOther

text \<open>
  \<open>toNumberMaybe\<close>: \<open>v.replace(/\s/g, '').replace(/\./g, '').replace(/,/g, '.')\<close>, then
  \<open>Number\<close>. The conversion \<open>Number\<close> belongs to the platform (it parses the text and
  rounds to the nearest double) and is a parameter here: \<open>number s\<close> is the result of
  \<open>Number(s)\<close> when that is finite and \<open>None\<close> when it is \<open>NaN\<close> or an infinity, which
  is all that \<open>Number.isFinite(n) ? n : null\<close> reads of it.
\<close>

definition toNumberMaybe :: "(string \<Rightarrow> jsnum option) \<Rightarrow> jsval \<Rightarrow> jsnum option" where
  "toNumberMaybe number v =
     (case v of
        JNumber r \<Rightarrow> Some r
      | JString str \<Rightarrow>
          (let s = map (\<lambda>c. if c = CHR '','' then dot else c)
                     (filter (\<lambda>c. c \<noteq> dot) (filter (\<lambda>c. \<not> isSpaceChar c) str))
           in number s)
      | _ \<Rightarrow> None)"

text \<open>
  \<open>Math.round\<close>: negative zero stays; a number from -0.5 up to but not including 0
  becomes negative zero; every other number becomes the nearest whole number, a half
  rounded up.
\<close>

definition mathRound :: "jsnum \<Rightarrow> jsnum" where
  "mathRound n =
     (case n of
        NegZero \<Rightarrow> NegZero
      | Fin x \<Rightarrow> if - (1 / 2) \<le> x \<and> x < 0 then NegZero else Fin (of_int \<lfloor>x + 1 / 2\<rfloor>))"

text \<open>\<open>Math.abs\<close>, and the comparison \<open>n < 0\<close>, which is false for negative zero.\<close>

definition mathAbs :: "jsnum \<Rightarrow> jsnum" where
  "mathAbs n = (case n of NegZero \<Rightarrow> Fin 0 | Fin x \<Rightarrow> Fin \<bar>x\<bar>)"

definition lessZero :: "jsnum \<Rightarrow> bool" where
  "lessZero n = (case n of NegZero \<Rightarrow> False | Fin x \<Rightarrow> x < 0)"

text \<open>Digits in groups of three from the right, the groups separated by a full stop.\<close>

fun groupRev :: "string \<Rightarrow> string" where
  "groupRev (a # b # c # d # ds) = a # b # c # dot # groupRev (d # ds)"
| "groupRev ds = ds"

text \<open>
  Modelled from the spec: the formatter \<open>clpFmt\<close> is the platform's
  \<open>Intl.NumberFormat('es-CL', { style: 'currency', currency: 'CLP', ... })\<close> with no
  fraction digits, which is not code of the repository. It is modelled as the spec and
  the prompt of the source describe it (\<open>$1.234.567\<close>): the peso sign, then the digits
  of the magnitude, rounded to a whole number with a half rounded away from zero and
  grouped by thousands. As ECMA-402 defines the default sign display, the formatter puts
  a minus sign after the peso sign for every number with the sign bit set, negative zero
  included: \<open>clpFmt.format(-0)\<close> is \<open>$-0\<close>.
\<close>

definition signBit :: "jsnum \<Rightarrow> bool" where
  "signBit n = (case n of NegZero \<Rightarrow> True | Fin x \<Rightarrow> x < 0)"

definition magnitude :: "jsnum \<Rightarrow> int" where
  "magnitude n = (case n of NegZero \<Rightarrow> 0 | Fin x \<Rightarrow> \<lfloor>\<bar>x\<bar> + 1 / 2\<rfloor>)"

definition clpFmt :: "jsnum \<Rightarrow> string" where
  "clpFmt n =
     CHR ''$'' # (if signBit n then ''-'' else []) @ rev (groupRev (rev (showDigits (magnitude n))))"

text \<open>
  \<open>formatCLP\<close>: the empty text for what is not a finite number; otherwise the format of
  the rounded number, with a minus sign put before the format of its absolute value when
  \<open>rounded < 0\<close>.
\<close>

definition formatCLP :: "jsval \<Rightarrow> string" where
  "formatCLP v =
     (case v of
        JNumber num \<Rightarrow>
          (let rounded = mathRound num
           in if lessZero rounded then ''-'' @ clpFmt (mathAbs rounded) else clpFmt rounded)
      | _ \<Rightarrow> [])"

section \<open>Notions used in the statements\<close>

text \<open>
  The names the first loop of \<open>validateSqlTables\<close> adds, in the order of the matches,
  and the targets the second loop reads.
\<close>

definition tokenNames :: "string \<Rightarrow> string list" where
  "tokenNames sql = map (\<lambda>(m1, m2). toLowerCase (m1 @ [dot] @ m2)) (execAll reSchemaTable None sql)"

definition fromJoinTargets :: "string \<Rightarrow> string list" where
  "fromJoinTargets sql = execAll reFromJoin None sql"

text \<open>
  The spec's reading of one target of the fallback (section 4.3, phase 2), written over
  the allow-list as a set: a two-part target names the table itself; a single-part target
  names the allow-listed table that ends with \<open>.bareName\<close> when exactly one does, and
  nothing otherwise.
\<close>

definition spec_resolved :: "string set \<Rightarrow> string \<Rightarrow> string set" where
  "spec_resolved allow full =
     (let parts = splitOn dot (stripQuotes full)
      in if length parts = 2 then {toLowerCase (parts ! 0 @ [dot] @ parts ! 1)}
         else if length parts = 1
         then {t \<in> allow. endsWith t (dot # toLowerCase (parts ! 0)) \<and>
                 (\<forall>u \<in> allow. endsWith u (dot # toLowerCase (parts ! 0)) \<longrightarrow> u = t)}
         else {})"

text \<open>
  A bare single-part name, as the third alternative of the target captures it when no
  dotted part follows: a letter or underscore, then word characters.
\<close>

definition isBareName :: "string \<Rightarrow> bool" where
  "isBareName full = (case full of [] \<Rightarrow> False | c # cs \<Rightarrow> isIdentStart c \<and> list_all isWordChar cs)"

text \<open>
  The spec's reading of the two scans (section 4.3), written without regular expressions.
  The text is cut into items: a word is a longest run of word characters, every other
  character is an item of its own.
\<close>

datatype item = W string | S char

function lexItems :: "string \<Rightarrow> item list" where
  "lexItems [] = []"
| "lexItems (c # cs) =
     (if isWordChar c then W (c # takeWhile isWordChar cs) # lexItems (dropWhile isWordChar cs)
      else S c # lexItems cs)"
  by pat_completeness auto
termination
  by (relation "measure length") (auto simp: length_dropWhile_le less_Suc_eq_le)

fun itemText :: "item \<Rightarrow> string" where
  "itemText (W w) = w"
| "itemText (S c) = [c]"

text \<open>An identifier is a word that starts with a letter or an underscore.\<close>

definition startsIdent :: "string \<Rightarrow> bool" where
  "startsIdent w = (case w of [] \<Rightarrow> False | c # _ \<Rightarrow> isIdentStart c)"

text \<open>
  Phase 1: an \<open>identifier.identifier\<close> token is two identifiers with one full stop
  between them, wherever they stand; the search goes on after the token.
\<close>

fun spec_tokens :: "item list \<Rightarrow> (string \<times> string) list" where
  "spec_tokens (W a # S d # W b # r) =
     (if d = dot \<and> startsIdent a \<and> startsIdent b then (a, b) # spec_tokens r
      else spec_tokens (S d # W b # r))"
| "spec_tokens (x # r) = spec_tokens r"
| "spec_tokens [] = []"

definition spec_tokenNames :: "string \<Rightarrow> string list" where
  "spec_tokenNames sql = map (\<lambda>(a, b). toLowerCase (a @ [dot] @ b)) (spec_tokens (lexItems sql))"

text \<open>
  The same tokens for a reader who skips what stands between double quotes: the items
  between an opening and a closing quote are dropped before the tokens are read.
\<close>

fun unquotedItems :: "bool \<Rightarrow> item list \<Rightarrow> item list" where
  "unquotedItems inside [] = []"
| "unquotedItems inside (x # r) =
     (if x = S dq then x # unquotedItems (\<not> inside) r
      else if inside then unquotedItems inside r
      else x # unquotedItems inside r)"

definition spec_unquotedTokenNames :: "string \<Rightarrow> string list" where
  "spec_unquotedTokenNames sql =
     map (\<lambda>(a, b). toLowerCase (a @ [dot] @ b)) (spec_tokens (unquotedItems False (lexItems sql)))"

text \<open>
  Phase 2: a target is \<open>"schema"."table"\<close>, or \<open>"table"\<close>, or a bare \<open>table[.table2]\<close>.
  A quoted name is a quote, at least one item that is not a quote, and the closing quote.
\<close>

definition spec_quoted :: "item list \<Rightarrow> (string \<times> item list) option" where
  "spec_quoted xs =
     (case xs of
        [] \<Rightarrow> None
      | x # r \<Rightarrow>
          if x \<noteq> S dq then None
          else (let body = takeWhile (\<lambda>y. y \<noteq> S dq) r
                in if body = [] then None
                   else (case dropWhile (\<lambda>y. y \<noteq> S dq) r of
                           [] \<Rightarrow> None
                         | _ # rest \<Rightarrow> Some (dq # concat (map itemText body) @ [dq], rest))))"

definition spec_quoted_pair :: "item list \<Rightarrow> (string \<times> item list) option" where
  "spec_quoted_pair xs =
     (case spec_quoted xs of
        None \<Rightarrow> None
      | Some (q1, r1) \<Rightarrow>
          (case r1 of
             [] \<Rightarrow> None
           | d # r2 \<Rightarrow>
               if d \<noteq> S dot then None
               else (case spec_quoted r2 of
                       None \<Rightarrow> None
                     | Some (q2, r3) \<Rightarrow> Some (q1 @ [dot] @ q2, r3))))"

definition spec_identifier :: "item list \<Rightarrow> (string \<times> item list) option" where
  "spec_identifier xs =
     (case xs of
        [] \<Rightarrow> None
      | x # r \<Rightarrow> (case x of W a \<Rightarrow> if startsIdent a then Some (a, r) else None | S c \<Rightarrow> None))"

definition spec_target :: "item list \<Rightarrow> (string \<times> item list) option" where
  "spec_target xs =
     (case spec_quoted_pair xs of
        Some x \<Rightarrow> Some x
      | None \<Rightarrow>
          (case spec_quoted xs of
             Some x \<Rightarrow> Some x
           | None \<Rightarrow>
               (case spec_identifier xs of
                  None \<Rightarrow> None
                | Some (a, r1) \<Rightarrow>
                    (case r1 of
                       [] \<Rightarrow> Some (a, r1)
                     | d # r2 \<Rightarrow>
                         if d \<noteq> S dot then Some (a, r1)
                         else (case spec_identifier r2 of
                                 None \<Rightarrow> Some (a, r1)
                               | Some (b, r3) \<Rightarrow> Some (a @ [dot] @ b, r3))))))"

text \<open>
  A \<open>FROM\<close>/\<open>JOIN\<close> clause is the word \<open>FROM\<close> or \<open>JOIN\<close> in any case, white space,
  and a target; the search goes on after the target, or after the word when no clause
  starts there.
\<close>

definition isSpaceItem :: "item \<Rightarrow> bool" where
  "isSpaceItem x = (case x of W w \<Rightarrow> False | S c \<Rightarrow> isSpaceChar c)"

definition isKeyword :: "string \<Rightarrow> bool" where
  "isKeyword w = (map canonicalize w = ''FROM'' \<or> map canonicalize w = ''JOIN'')"

function spec_targets :: "item list \<Rightarrow> string list" where
  "spec_targets [] = []"
| "spec_targets (S c # r) = spec_targets r"
| "spec_targets (W kw # r) =
     (if isKeyword kw \<and> takeWhile isSpaceItem r \<noteq> []
      then (case spec_target (dropWhile isSpaceItem r) of
              None \<Rightarrow> spec_targets r
            | Some (full, rest) \<Rightarrow> full # spec_targets rest)
      else spec_targets r)"
  by pat_completeness auto
termination
proof -
  have q: "length rest < length xs" if "spec_quoted xs = Some (t, rest)" for xs t rest
  proof -
    from that obtain x r y where xs: "xs = x # r" and d: "dropWhile (\<lambda>y. y \<noteq> S dq) r = y # rest"
      by (auto simp: spec_quoted_def Let_def split: list.splits if_splits)
    have "length (y # rest) \<le> length r"
      using length_dropWhile_le[of "\<lambda>y. y \<noteq> S dq" r] unfolding d .
    then show ?thesis using xs by simp
  qed
  have i: "length rest < length xs" if "spec_identifier xs = Some (t, rest)" for xs t rest
    using that by (auto simp: spec_identifier_def split: list.splits item.splits if_splits)
  have p: "length rest < length xs" if "spec_quoted_pair xs = Some (t, rest)" for xs t rest
    using that
    by (fastforce simp: spec_quoted_pair_def split: option.splits list.splits if_splits dest: q)
  have g: "length rest < length xs" if "spec_target xs = Some (t, rest)" for xs t rest
    using that
    by (fastforce simp: spec_target_def split: option.splits list.splits if_splits dest: q p i)
  show ?thesis
  proof (relation "measure length", goal_cases)
    case 1
    then show ?case by simp
  next
    case (2 c r)
    then show ?case by simp
  next
    case (3 kw r)
    then show ?case by simp
  next
    case (4 kw r x2 full rest)
    from g[of "dropWhile isSpaceItem r" full rest] 4
    have "length rest < length (dropWhile isSpaceItem r)" by simp
    then show ?case
      using length_dropWhile_le[of isSpaceItem r] by simp
  next
    case (5 kw r)
    then show ?case by simp
  qed
qed

definition spec_fromJoinTargets :: "string \<Rightarrow> string list" where
  "spec_fromJoinTargets sql = spec_targets (lexItems sql)"

text \<open>The targets that start with a quote.\<close>

definition spec_quotedTargets :: "string \<Rightarrow> string list" where
  "spec_quotedTargets sql = filter (\<lambda>full. take 1 full = [dq]) (spec_fromJoinTargets sql)"

text \<open>
  Where a scan can match: a pattern that opens with \<open>\b\<close> and a word character matches
  only at the start of a word.
\<close>

definition prevWord :: "char option \<Rightarrow> bool" where
  "prevWord prev = (case prev of None \<Rightarrow> False | Some p \<Rightarrow> isWordChar p)"

definition atWordStart :: "'g matcher \<Rightarrow> bool" where
  "atWordStart re = (\<forall>prev s. re prev s \<noteq> None \<longrightarrow> s \<noteq> [] \<and> isWordChar (hd s) \<and> \<not> prevWord prev)"

text \<open>
  Concrete texts for the examples: an identifier in double quotes; a query with a quoted
  two-part target and an alias; queries with a token inside double quotes; queries with
  two tokens and with a bare name.
\<close>

definition quoted :: "string \<Rightarrow> string" where
  "quoted s = [dq] @ s @ [dq]"

definition sqlAliasSecret :: string where
  "sqlAliasSecret = ''SELECT t.x FROM '' @ quoted ''s'' @ ''.'' @ quoted ''secret'' @ '' t''"

definition secretTarget :: string where
  "secretTarget = quoted ''s'' @ ''.'' @ quoted ''secret''"

definition sqlQuotedSecret :: string where
  "sqlQuotedSecret = ''SELECT x.y FROM '' @ quoted ''s.secret''"

definition quotedSecret :: string where
  "quotedSecret = quoted ''s.secret''"

definition sqlQuotedColumn :: string where
  "sqlQuotedColumn = ''SELECT '' @ quoted ''a.b'' @ '' FROM public.t''"

definition sqlTwoTokens :: string where
  "sqlTwoTokens = ''SELECT * FROM Public.Producto JOIN ventas.Item''"

definition sqlBareProducto :: string where
  "sqlBareProducto = ''SELECT * from producto''"

text \<open>
  The table name as \<open>nodeExecuteSQL\<close> prints it, \<open>"${schemaName}"."${tableName}"\<close>, and
  its diagnostic query, both from the first found table.
\<close>

definition quotedName :: "string \<Rightarrow> string" where
  "quotedName first =
     quoteIdent (nthOpt (splitOn dot first) 0) @ [dot] @ quoteIdent (nthOpt (splitOn dot first) 1)"

definition countQuery :: "string \<Rightarrow> string" where
  "countQuery first = ''SELECT COUNT(*)::int AS count FROM '' @ quotedName first"

text \<open>\<open>err?.message || 'Database error'\<close>.\<close>

definition errorMessage :: "jsError \<Rightarrow> string" where
  "errorMessage err =
     (case message err of
        None \<Rightarrow> ''Database error''
      | Some m \<Rightarrow> if m = [] then ''Database error'' else m)"

text \<open>
  Two databases for the examples, with natural numbers as rows: one where every query
  returns no row except the count query of \<open>public.producto\<close>, and one where every
  query fails.
\<close>

definition emptyDb :: "nat database" where
  "emptyDb = \<lparr>connectError = None,
              query = (\<lambda>q. if q = countQuery ''public.producto'' then Inr [42] else Inr []),
              countField = (\<lambda>r. Some (int r))\<rparr>"

definition failingDb :: "nat database" where
  "failingDb = \<lparr>connectError = None,
                query = (\<lambda>q. Inl \<lparr>message = Some ''relation does not exist''\<rparr>),
                countField = (\<lambda>r. None)\<rparr>"

definition sqlProducto :: string where
  "sqlProducto = ''SELECT * FROM public.producto WHERE FALSE''"

text \<open>
  A database whose only relation is \<open>"public"."Producto"\<close>, with three rows, and a query
  on it that selects none of them. Quoted identifiers are case-sensitive: every other
  query fails.
\<close>

definition sqlQuotedProducto :: string where
  "sqlQuotedProducto = ''SELECT * FROM '' @ quoted ''public'' @ ''.'' @ quoted ''Producto'' @ '' WHERE 1 = 0''"

definition productoDb :: "nat database" where
  "productoDb = \<lparr>connectError = None,
                 query = (\<lambda>q. if q = sqlQuotedProducto then Inr []
                               else if q = countQuery ''public.Producto'' then Inr [3]
                               else Inl \<lparr>message = Some ''relation does not exist''\<rparr>),
                 countField = (\<lambda>r. Some (int r))\<rparr>"

text \<open>
  For the examples: an agent that echoes the question as its state and counts its calls
  in the world, and queries with their allow-lists.
\<close>

definition countingAgent :: "string \<Rightarrow> nat \<Rightarrow> (jsError + string) \<times> nat" where
  "countingAgent question w = (Inr question, Suc w)"

definition sqlFromProducto :: string where
  "sqlFromProducto = ''SELECT * FROM Producto''"

definition sqlInventario :: string where
  "sqlInventario = ''SELECT * FROM inventario.producto''"

definition inventarioTables :: "string list" where
  "inventarioTables = [''inventario.inventario'', ''inventario.producto'']"

definition sqlSecreto :: string where
  "sqlSecreto = ''SELECT * FROM ventas.secreto''"

text \<open>
  For the qualifier: the targets its scan captures; the table part of an allow-listed
  name (the second element of \<open>fq.split('.')\<close>); the lower-cased allow-listed names whose
  table part is a given bare name; and the text \<open>`${schema}.${tbl}`\<close> pushed for a name.
\<close>

definition qualifierTargets :: "string \<Rightarrow> string list" where
  "qualifierTargets sql = map (\<lambda>(kw, target, tail). target) (execAll reQualify None sql)"

definition tablePart :: "string \<Rightarrow> string option" where
  "tablePart fq = nthOpt (splitOn dot fq) 1"

definition candidates :: "string list \<Rightarrow> string \<Rightarrow> string list" where
  "candidates allowedTables t =
     filter (\<lambda>fq. tablePart fq = Some (toLowerCase t)) (map toLowerCase allowedTables)"

definition pushed :: "string \<Rightarrow> string" where
  "pushed fq = templ (nthOpt (splitOn dot fq) 0) @ [dot] @ templ (nthOpt (splitOn dot fq) 1)"

text \<open>
  A matcher is sound when what it returns as \<open>m[0]\<close> is a non-empty prefix of the text it
  was given.
\<close>

definition matcherSound :: "'g matcher \<Rightarrow> bool" where
  "matcherSound re = (\<forall>prev s m0 g. re prev s = Some (m0, g) \<longrightarrow> m0 \<noteq> [] \<and> take (length m0) s = m0)"

section \<open>Regular expressions: every match is a non-empty prefix\<close>

text \<open>
  The three patterns are sound, so the loops \<open>execAll\<close> and \<open>replaceAll\<close> never take
  their branch for an empty match.
\<close>

lemma identAt_sound: "identAt s = Some (a, r) \<Longrightarrow> s = a @ r \<and> a \<noteq> []"
  by (auto simp: identAt_def split: list.splits if_splits)

lemma quotedAt_sound: "quotedAt s = Some (q, r) \<Longrightarrow> s = q @ r \<and> q \<noteq> []"
proof -
  assume a: "quotedAt s = Some (q, r)"
  then obtain cs where s: "s = dq # cs"
    by (auto simp: quotedAt_def split: list.splits if_splits)
  let ?P = "\<lambda>c. c \<noteq> dq"
  from a s obtain x r' where d: "dropWhile ?P cs = x # r'" and q: "q = dq # takeWhile ?P cs @ [dq]" and r: "r = r'"
    by (auto simp: quotedAt_def Let_def split: list.splits if_splits)
  have "x = dq"
    using d hd_dropWhile[of ?P cs] by auto
  then have "cs = takeWhile ?P cs @ dq # r'"
    using d takeWhile_dropWhile_id[of ?P cs] by simp
  then show ?thesis using s q r by simp
qed

lemma quotedPairAt_sound: "quotedPairAt s = Some (q, r) \<Longrightarrow> s = q @ r \<and> q \<noteq> []"
  by (auto simp: quotedPairAt_def split: option.splits list.splits if_splits dest!: quotedAt_sound)

lemma keywordAt_sound:
  assumes "keywordAt ic s = Some (k, r)"
  shows "s = k @ r \<and> k \<noteq> []"
proof -
  from assms have k: "k = take 4 s" and r: "r = drop 4 s"
    by (auto simp: keywordAt_def Let_def split: if_splits)
  from assms have "length (take 4 s) = 4"
    by (auto simp: keywordAt_def Let_def split: if_splits dest: arg_cong[where f = length])
  then have "take 4 s \<noteq> []" by auto
  with k r show ?thesis by simp
qed

lemma spacesAt_sound: "spacesAt s = Some (w, r) \<Longrightarrow> s = w @ r \<and> w \<noteq> []"
  by (auto simp: spacesAt_def Let_def split: if_splits)

lemma fromJoinTargetAt_sound: "fromJoinTargetAt s = Some (t, r) \<Longrightarrow> s = t @ r \<and> t \<noteq> []"
  by (auto simp: fromJoinTargetAt_def split: option.splits list.splits if_splits
      dest!: quotedAt_sound quotedPairAt_sound identAt_sound)

lemma qualifyTargetAt_sound: "qualifyTargetAt s = Some (t, r) \<Longrightarrow> s = t @ r \<and> t \<noteq> []"
  by (auto simp: qualifyTargetAt_def split: option.splits list.splits if_splits
      dest!: quotedAt_sound quotedPairAt_sound identAt_sound)

lemma reSchemaTable_sound: "matcherSound reSchemaTable"
  unfolding matcherSound_def
  by (auto simp: reSchemaTable_def split: option.splits list.splits if_splits dest!: identAt_sound)

lemma reFromJoin_sound: "matcherSound reFromJoin"
  unfolding matcherSound_def
  by (auto simp: reFromJoin_def split: option.splits list.splits if_splits
      dest!: keywordAt_sound spacesAt_sound fromJoinTargetAt_sound)

lemma reQualify_sound: "matcherSound reQualify"
  unfolding matcherSound_def
  by (auto simp: reQualify_def split: option.splits list.splits if_splits
      dest!: keywordAt_sound spacesAt_sound qualifyTargetAt_sound)


lemma matcherSoundD:
  "matcherSound re \<Longrightarrow> re prev s = Some (m0, g) \<Longrightarrow> m0 \<noteq> [] \<and> take (length m0) s = m0"
  unfolding matcherSound_def by (erule allE[of _ prev], erule allE[of _ s], erule allE[of _ m0], erule allE[of _ g]) simp

section \<open>The scans report what stands in the text\<close>

text \<open>
  Every token of the first scan is an occurrence \<open>a.b\<close> of two identifiers in the text,
  and every target of the second scan stands after \<open>FROM\<close> or \<open>JOIN\<close> (in any case) and
  white space.
\<close>

lemma execAll_occurs:
  "matcherSound re \<Longrightarrow> g \<in> set (execAll re prev s) \<Longrightarrow>
     \<exists>pre m0 post prev'. s = pre @ m0 @ post \<and> re prev' (m0 @ post) = Some (m0, g)"
proof (induction re prev s rule: execAll.induct)
  case (1 re prev)
  from "1.prems"(2) obtain m0 where "re prev [] = Some (m0, g)"
    by (cases "re prev []") auto
  from matcherSoundD[OF "1.prems"(1) this] have "m0 \<noteq> [] \<and> take (length m0) [] = m0" .
  then have False by auto
  then show ?case ..
next
  case (2 re prev c cs)
  show ?case
  proof (cases "re prev (c # cs)")
    case None
    with "2.prems" have "g \<in> set (execAll re (Some c) cs)" by simp
    from "2.IH"(1)[OF None "2.prems"(1) this]
    obtain pre m0 post prev' where d: "cs = pre @ m0 @ post" "re prev' (m0 @ post) = Some (m0, g)"
      by blast
    have "c # cs = (c # pre) @ m0 @ post" using d(1) by simp
    with d(2) show ?thesis by blast
  next
    case (Some p)
    obtain m0 g' where p: "p = (m0, g')" by (cases p)
    have r: "re prev (c # cs) = Some (m0, g')"
      using Some p by simp
    from matcherSoundD[OF "2.prems"(1) this]
    have snd: "m0 \<noteq> []" "take (length m0) (c # cs) = m0" by simp_all
    let ?post = "drop (length m0) (c # cs)"
    have s: "c # cs = [] @ m0 @ ?post"
      using snd(2) append_take_drop_id[of "length m0" "c # cs"] by simp
    from "2.prems"(2) r snd(1) have "g = g' \<or> g \<in> set (execAll re (Some (last m0)) ?post)"
      by auto
    then show ?thesis
    proof
      assume "g = g'"
      then have "re prev (m0 @ ?post) = Some (m0, g)" using r s by simp
      with s show ?thesis by blast
    next
      assume "g \<in> set (execAll re (Some (last m0)) ?post)"
      from "2.IH"(2)[OF Some p[symmetric] snd(1) "2.prems"(1) this]
      obtain pre m1 post prev' where d: "?post = pre @ m1 @ post" "re prev' (m1 @ post) = Some (m1, g)"
        by blast
      have "c # cs = (m0 @ pre) @ m1 @ post" using s d(1) by simp
      with d(2) show ?thesis by blast
    qed
  qed
qed

lemma identAt_bare: "identAt s = Some (a, r) \<Longrightarrow> isBareName a"
  by (auto simp: identAt_def isBareName_def list_all_iff split: list.splits if_splits dest: set_takeWhileD)

lemma reSchemaTable_shape:
  assumes "reSchemaTable prev s = Some (m0, (a, b))"
  shows "m0 = a @ [dot] @ b \<and> isBareName a \<and> isBareName b"
proof -
  from assms obtain r1 r2 r3 where i: "identAt s = Some (a, r1)" "identAt r2 = Some (b, r3)"
    and m: "m0 = a @ [dot] @ b"
    by (auto simp: reSchemaTable_def split: if_splits option.splits list.splits)
  from identAt_bare[OF i(1)] identAt_bare[OF i(2)] m show ?thesis by simp
qed

lemma token_occurs:
  assumes "t \<in> set (tokenNames sql)"
  shows "\<exists>pre a b post. sql = pre @ a @ [dot] @ b @ post \<and> isBareName a \<and> isBareName b
           \<and> t = toLowerCase (a @ [dot] @ b)"
proof -
  from assms obtain a b where g: "(a, b) \<in> set (execAll reSchemaTable None sql)"
    and t: "t = toLowerCase (a @ [dot] @ b)"
    by (auto simp: tokenNames_def)
  from execAll_occurs[OF reSchemaTable_sound g]
  obtain pre m0 post prev' where d: "sql = pre @ m0 @ post" "reSchemaTable prev' (m0 @ post) = Some (m0, (a, b))"
    by blast
  from reSchemaTable_shape[OF d(2)] d(1) t show ?thesis by auto
qed

lemma keywordAt_ignoreCase:
  assumes "keywordAt True s = Some (kw, r0)"
  shows "map canonicalize kw = ''FROM'' \<or> map canonicalize kw = ''JOIN''"
proof (cases "map canonicalize (take 4 s) = ''FROM'' \<or> map canonicalize (take 4 s) = ''JOIN''")
  case True
  moreover from assms True have "kw = take 4 s"
    unfolding keywordAt_def Let_def by (simp only: if_True option.inject prod.inject)
  ultimately show ?thesis by (simp only:)
next
  case False
  with assms show ?thesis
    unfolding keywordAt_def Let_def by (simp only: if_True if_False option.distinct)
qed

lemma spacesAt_spaces:
  assumes "spacesAt r0 = Some (ws, r1)"
  shows "ws \<noteq> [] \<and> list_all isSpaceChar ws"
proof -
  from assms have ws: "ws = takeWhile isSpaceChar r0" "ws \<noteq> []"
    by (auto simp: spacesAt_def Let_def split: if_splits)
  have "list_all isSpaceChar ws"
    unfolding ws(1) list_all_iff using set_takeWhileD by fastforce
  with ws(2) show ?thesis by simp
qed

lemma reFromJoin_shape:
  assumes "reFromJoin prev s = Some (m0, full)"
  shows "\<exists>kw ws. m0 = kw @ ws @ full \<and> (map canonicalize kw = ''FROM'' \<or> map canonicalize kw = ''JOIN'')
            \<and> ws \<noteq> [] \<and> list_all isSpaceChar ws"
proof -
  from assms obtain kw r0 where k: "keywordAt True s = Some (kw, r0)"
    by (cases "keywordAt True s") (auto simp: reFromJoin_def split: if_splits)
  from assms k obtain ws r1 where w: "spacesAt r0 = Some (ws, r1)"
    by (cases "spacesAt r0") (auto simp: reFromJoin_def split: if_splits)
  from assms k w obtain r2 where "fromJoinTargetAt r1 = Some (full, r2)" and m: "m0 = kw @ ws @ full"
    by (cases "fromJoinTargetAt r1") (auto simp: reFromJoin_def split: if_splits)
  show ?thesis
  proof (intro exI conjI)
    show "m0 = kw @ ws @ full" by (rule m)
    show "map canonicalize kw = ''FROM'' \<or> map canonicalize kw = ''JOIN''"
      by (rule keywordAt_ignoreCase[OF k])
    show "ws \<noteq> []" using spacesAt_spaces[OF w] by (rule conjunct1)
    show "list_all isSpaceChar ws" using spacesAt_spaces[OF w] by (rule conjunct2)
  qed
qed

lemma target_occurs:
  assumes "full \<in> set (fromJoinTargets sql)"
  shows "\<exists>pre kw ws post. sql = pre @ kw @ ws @ full @ post
           \<and> (map canonicalize kw = ''FROM'' \<or> map canonicalize kw = ''JOIN'')
           \<and> ws \<noteq> [] \<and> list_all isSpaceChar ws"
proof -
  from execAll_occurs[OF reFromJoin_sound assms[unfolded fromJoinTargets_def]]
  obtain pre m0 post prev' where d: "sql = pre @ m0 @ post" "reFromJoin prev' (m0 @ post) = Some (m0, full)"
    by blast
  from reFromJoin_shape[OF d(2)] obtain kw ws where x: "m0 = kw @ ws @ full"
    "map canonicalize kw = ''FROM'' \<or> map canonicalize kw = ''JOIN''" "ws \<noteq> []"
    "list_all isSpaceChar ws"
    by (elim exE conjE)
  show ?thesis
  proof (intro exI conjI)
    show "sql = pre @ kw @ ws @ full @ post" using d(1) x(1) by simp
    show "map canonicalize kw = ''FROM'' \<or> map canonicalize kw = ''JOIN''" by (rule x(2))
    show "ws \<noteq> []" by (rule x(3))
    show "list_all isSpaceChar ws" by (rule x(4))
  qed
qed

section \<open>The scans, word by word\<close>

text \<open>
  Both patterns of the validator open with \<open>\b\<close> and a word character, so a scan
  moves from word to word; at each word it finds what the reading by items finds.
\<close>

lemma atWordStartD:
  "atWordStart re \<Longrightarrow> re prev s = Some x \<Longrightarrow> s \<noteq> [] \<and> isWordChar (hd s) \<and> \<not> prevWord prev"
  unfolding atWordStart_def by (erule allE[of _ prev], erule allE[of _ s]) simp

lemma atWordStart_None:
  "atWordStart re \<Longrightarrow> s = [] \<or> \<not> isWordChar (hd s) \<or> prevWord prev \<Longrightarrow> re prev s = None"
  using atWordStartD by (cases "re prev s") blast+

lemma execAll_skip_word:
  "atWordStart re \<Longrightarrow> prevWord prev \<Longrightarrow> \<forall>c \<in> set w. isWordChar c \<Longrightarrow>
     execAll re prev (w @ r) = execAll re (if w = [] then prev else Some (last w)) r"
proof (induction w arbitrary: prev)
  case Nil
  then show ?case by simp
next
  case (Cons c w)
  have n: "re prev (c # w @ r) = None"
    using Cons.prems(1,2) by (intro atWordStart_None) auto
  have p: "prevWord (Some c)"
    using Cons.prems(3) by (simp add: prevWord_def)
  have "execAll re prev ((c # w) @ r) = execAll re (Some c) (w @ r)"
    using n by simp
  also have "\<dots> = execAll re (if w = [] then Some c else Some (last w)) r"
    using Cons.IH[OF Cons.prems(1) p] Cons.prems(3) by simp
  finally show ?case by simp
qed

lemma isIdentStart_word: "isIdentStart c \<Longrightarrow> isWordChar c"
  by (auto simp: isWordChar_def isIdentStart_def Let_def)

lemma isWordChar_dot: "\<not> isWordChar dot"
  by (simp add: isWordChar_def dot_def)

lemma wordBoundary_start: "isWordChar c \<Longrightarrow> wordBoundary prev (c # cs) = (\<not> prevWord prev)"
  by (auto simp: wordBoundary_def prevWord_def split: option.splits)

lemma wordBoundary_end:
  "isWordChar p \<Longrightarrow> wordBoundary (Some p) r = (r = [] \<or> \<not> isWordChar (hd r))"
  by (cases r) (auto simp: wordBoundary_def)

lemma dropWhile_word_start: "dropWhile isWordChar cs = [] \<or> \<not> isWordChar (hd (dropWhile isWordChar cs))"
  using hd_dropWhile[of isWordChar cs] by blast

lemma last_word_run: "isWordChar c \<Longrightarrow> isWordChar (last (c # takeWhile isWordChar cs))"
proof -
  assume c: "isWordChar c"
  have "\<forall>x \<in> set (c # takeWhile isWordChar cs). isWordChar x"
    using c by (auto dest: set_takeWhileD)
  then show ?thesis
    using last_in_set[of "c # takeWhile isWordChar cs"] by blast
qed

lemma reSchemaTable_atWordStart: "atWordStart reSchemaTable"
  unfolding atWordStart_def
proof (intro allI impI)
  fix prev s
  assume a: "reSchemaTable prev s \<noteq> None"
  then have wb: "wordBoundary prev s" and i: "identAt s \<noteq> None"
    by (auto simp: reSchemaTable_def split: if_splits option.splits)
  from i obtain c cs where s: "s = c # cs" and c: "isIdentStart c"
    by (cases s) (auto simp: identAt_def split: if_splits)
  have w: "isWordChar c" using c by (rule isIdentStart_word)
  with wb s show "s \<noteq> [] \<and> isWordChar (hd s) \<and> \<not> prevWord prev"
    by (simp add: wordBoundary_start)
qed


lemma reSchemaTable_match:
  assumes "\<not> prevWord prev" "isIdentStart c" "isIdentStart c2"
    and "dropWhile isWordChar cs = dot # c2 # cs2"
  shows "reSchemaTable prev (c # cs) =
           Some ((c # takeWhile isWordChar cs) @ [dot] @ (c2 # takeWhile isWordChar cs2),
                 (c # takeWhile isWordChar cs, c2 # takeWhile isWordChar cs2))"
proof -
  have w: "isWordChar c" "isWordChar c2"
    using assms(2,3) by (simp_all add: isIdentStart_word)
  have e: "wordBoundary (Some (last (c2 # takeWhile isWordChar cs2))) (dropWhile isWordChar cs2)"
    using wordBoundary_end[OF last_word_run[OF w(2)]] dropWhile_word_start by blast
  show ?thesis
    unfolding reSchemaTable_def
    using assms w e by (simp add: wordBoundary_start identAt_def)
qed

lemma reSchemaTable_no_match:
  assumes "\<not> (isIdentStart c \<and> (\<exists>c2 cs2. dropWhile isWordChar cs = dot # c2 # cs2 \<and> isIdentStart c2))"
  shows "reSchemaTable prev (c # cs) = None"
  using assms
  by (auto simp: reSchemaTable_def identAt_def split: option.splits list.splits if_splits)

lemma spec_tokens_skip:
  assumes "r = [] \<or> \<not> isWordChar (hd r)"
    and "\<not> (startsIdent w \<and> (\<exists>c2 cs2. r = dot # c2 # cs2 \<and> isIdentStart c2))"
  shows "spec_tokens (W w # lexItems r) = spec_tokens (lexItems r)"
proof (cases r)
  case Nil
  then show ?thesis by simp
next
  case (Cons d r2)
  with assms(1) have nd: "\<not> isWordChar d" by simp
  show ?thesis
  proof (cases r2)
    case Nil
    with Cons nd show ?thesis by simp
  next
    case c2: (Cons c2 cs2)
    show ?thesis
    proof (cases "isWordChar c2")
      case False
      with Cons c2 nd show ?thesis by simp
    next
      case True
      have "\<not> (d = dot \<and> startsIdent w \<and> startsIdent (c2 # takeWhile isWordChar cs2))"
        using assms(2) Cons c2 by (auto simp: startsIdent_def)
      with Cons c2 nd True show ?thesis by auto
    qed
  qed
qed

lemma tokens_refine:
  "s = [] \<or> \<not> isWordChar (hd s) \<or> \<not> prevWord prev \<Longrightarrow>
     execAll reSchemaTable prev s = spec_tokens (lexItems s)"
proof (induction "length s" arbitrary: s prev rule: less_induct)
  case less
  note aw = reSchemaTable_atWordStart
  show ?case
  proof (cases s)
    case Nil
    have "reSchemaTable prev [] = None"
      by (rule atWordStart_None[OF aw]) simp
    with Nil show ?thesis by simp
  next
    case (Cons c cs)
    show ?thesis
    proof (cases "isWordChar c")
      case False
      have n: "reSchemaTable prev (c # cs) = None"
        using False by (intro atWordStart_None[OF aw]) simp
      have "execAll reSchemaTable (Some c) cs = spec_tokens (lexItems cs)"
        using False by (intro less.hyps) (simp_all add: Cons prevWord_def)
      with n False Cons show ?thesis by simp
    next
      case True
      with less.prems Cons have np: "\<not> prevWord prev" by simp
      let ?w = "c # takeWhile isWordChar cs"
      let ?r = "dropWhile isWordChar cs"
      have lx: "lexItems s = W ?w # lexItems ?r"
        using True Cons by simp
      have rs: "?r = [] \<or> \<not> isWordChar (hd ?r)"
        by (rule dropWhile_word_start)
      show ?thesis
      proof (cases "isIdentStart c \<and> (\<exists>c2 cs2. ?r = dot # c2 # cs2 \<and> isIdentStart c2)")
        case True
        then obtain c2 cs2 where r: "?r = dot # c2 # cs2" and i: "isIdentStart c" "isIdentStart c2"
          by blast
        let ?b = "c2 # takeWhile isWordChar cs2"
        let ?r3 = "dropWhile isWordChar cs2"
        let ?m0 = "?w @ [dot] @ ?b"
        have m: "reSchemaTable prev (c # cs) = Some (?m0, (?w, ?b))"
          by (rule reSchemaTable_match[OF np i r])
        have "c # cs = c # (takeWhile isWordChar cs @ dot # c2 # cs2)"
          by (simp only: r[symmetric] takeWhile_dropWhile_id)
        also have "\<dots> = ?m0 @ ?r3"
          by simp
        finally have dec: "c # cs = ?m0 @ ?r3" .
        have d: "drop (length ?m0) (c # cs) = ?r3"
          using dec by (metis append_eq_conv_conj)
        have len: "length ?r3 < length s"
          using arg_cong[OF dec, of length] Cons length_dropWhile_le[of isWordChar cs2] by simp
        have ih: "execAll reSchemaTable (Some (last ?m0)) ?r3 = spec_tokens (lexItems ?r3)"
          using dropWhile_word_start[of cs2] by (intro less.hyps[OF len]) blast
        have w2: "isWordChar c2" using i(2) by (rule isIdentStart_word)
        have "lexItems ?r = S dot # W ?b # lexItems ?r3"
          using w2 by (simp add: r isWordChar_dot)
        then have "spec_tokens (lexItems s) = (?w, ?b) # spec_tokens (lexItems ?r3)"
          using lx i by (simp add: startsIdent_def)
        moreover have "execAll reSchemaTable prev s = (?w, ?b) # execAll reSchemaTable (Some (last ?m0)) ?r3"
          unfolding Cons using m d by simp
        ultimately show ?thesis using ih by simp
      next
        case False
        have n: "reSchemaTable prev (c # cs) = None"
          by (rule reSchemaTable_no_match[OF False])
        have pw: "prevWord (Some c)"
          using True by (simp add: prevWord_def)
        have "execAll reSchemaTable prev s = execAll reSchemaTable (Some c) (takeWhile isWordChar cs @ ?r)"
          unfolding Cons using n by simp
        also have "\<dots> = execAll reSchemaTable (Some (last ?w)) ?r"
        proof -
          have tw: "\<forall>x \<in> set (takeWhile isWordChar cs). isWordChar x"
            by (auto dest: set_takeWhileD)
          show ?thesis
            using execAll_skip_word[OF aw pw tw, of ?r] by simp
        qed
        also have "\<dots> = spec_tokens (lexItems ?r)"
          using rs by (intro less.hyps) (auto simp: Cons length_dropWhile_le less_Suc_eq_le)
        also have "\<dots> = spec_tokens (W ?w # lexItems ?r)"
          using False by (intro spec_tokens_skip[symmetric] rs) (simp add: startsIdent_def)
        finally show ?thesis using lx by simp
      qed
    qed
  qed
qed

lemma execAll_reSchemaTable_spec: "execAll reSchemaTable None sql = spec_tokens (lexItems sql)"
  by (rule tokens_refine) (simp add: prevWord_def)

lemma lexItems_sep: "\<not> isWordChar c \<Longrightarrow> lexItems (c # cs) = S c # lexItems cs"
  by simp

lemma lexItems_append_sep:
  "\<not> isWordChar c \<Longrightarrow> lexItems (x @ c # y) = lexItems x @ S c # lexItems y"
proof (induction x rule: lexItems.induct)
  case 1
  then show ?case by simp
next
  case (2 a as)
  show ?case
  proof (cases "isWordChar a")
    case False
    with 2 show ?thesis by simp
  next
    case True
    have t: "takeWhile isWordChar (as @ c # y) = takeWhile isWordChar as"
      using 2(3) by (induction as) auto
    have d: "dropWhile isWordChar (as @ c # y) = dropWhile isWordChar as @ c # y"
      using 2(3) by (induction as) auto
    show ?thesis
      using True 2(1)[OF True 2(3)] by (simp add: t d)
  qed
qed

lemma concat_lexItems: "concat (map itemText (lexItems s)) = s"
  by (induction s rule: lexItems.induct) auto

lemma lexItems_S_mem: "S c \<in> set (lexItems s) \<Longrightarrow> c \<in> set s"
proof (induction s rule: lexItems.induct)
  case 1
  then show ?case by simp
next
  case (2 a as)
  show ?case
  proof (cases "isWordChar a")
    case False
    with 2 show ?thesis by auto
  next
    case True
    with 2(3) have "S c \<in> set (lexItems (dropWhile isWordChar as))" by simp
    then have "c \<in> set (dropWhile isWordChar as)" using 2(1)[OF True] by simp
    then show ?thesis by (auto dest: set_dropWhileD)
  qed
qed

lemma lexItems_Nil: "(lexItems s = []) = (s = [])"
  by (cases s) auto

lemma isWordChar_dq: "\<not> isWordChar dq"
  by (simp add: isWordChar_def dq_def)

lemma spec_quoted_refine:
  "spec_quoted (lexItems s) = map_option (\<lambda>(q, r). (q, lexItems r)) (quotedAt s)"
proof (cases s)
  case Nil
  then show ?thesis by (simp add: spec_quoted_def quotedAt_def)
next
  case (Cons c cs)
  show ?thesis
  proof (cases "c = dq")
    case False
    then have "hd (lexItems (c # cs)) \<noteq> S dq" by auto
    moreover have "lexItems (c # cs) \<noteq> []" by (simp add: lexItems_Nil)
    ultimately have "spec_quoted (lexItems (c # cs)) = None"
      by (cases "lexItems (c # cs)") (auto simp: spec_quoted_def)
    with False Cons show ?thesis by (simp add: quotedAt_def)
  next
    case True
    let ?body = "takeWhile (\<lambda>c. c \<noteq> dq) cs"
    let ?rest = "dropWhile (\<lambda>c. c \<noteq> dq) cs"
    have lx: "lexItems s = S dq # lexItems cs"
      using True Cons by (simp add: isWordChar_dq)
    have nb: "S dq \<notin> set (lexItems ?body)"
      using lexItems_S_mem[of dq ?body] by (auto dest: set_takeWhileD)
    show ?thesis
    proof (cases ?rest)
      case Nil
      then have "?body = cs" by (metis append_Nil2 takeWhile_dropWhile_id)
      with nb have n: "S dq \<notin> set (lexItems cs)" by simp
      then have "dropWhile (\<lambda>y. y \<noteq> S dq) (lexItems cs) = []"
        by (intro dropWhile_eq_Nil_conv[THEN iffD2]) auto
      then have "spec_quoted (lexItems s) = None"
        unfolding lx by (simp add: spec_quoted_def Let_def del: dropWhile_eq_Nil_conv)
      moreover have "quotedAt s = None"
        unfolding Cons using True Nil by (simp add: quotedAt_def Let_def del: dropWhile_eq_Nil_conv)
      ultimately show ?thesis by simp
    next
      case r: (Cons d r)
      have d: "d = dq" using hd_dropWhile[of "\<lambda>c. c \<noteq> dq" cs] r by auto
      have cs: "cs = ?body @ dq # r"
        using takeWhile_dropWhile_id[of "\<lambda>c. c \<noteq> dq" cs] r d by simp
      have lcs: "lexItems cs = lexItems ?body @ S dq # lexItems r"
        using lexItems_append_sep[OF isWordChar_dq, of ?body r] cs by simp
      have t: "takeWhile (\<lambda>y. y \<noteq> S dq) (lexItems cs) = lexItems ?body"
        unfolding lcs using nb by (subst takeWhile_append2) auto
      have dr: "dropWhile (\<lambda>y. y \<noteq> S dq) (lexItems cs) = S dq # lexItems r"
        unfolding lcs using nb by (subst dropWhile_append2) auto
      have "spec_quoted (lexItems s) =
              (if ?body = [] then None else Some (dq # ?body @ [dq], lexItems r))"
        unfolding lx by (simp add: spec_quoted_def Let_def t dr lexItems_Nil concat_lexItems)
      moreover have "quotedAt s = (if ?body = [] then None else Some (dq # ?body @ [dq], r))"
        unfolding Cons using True r by (simp add: quotedAt_def Let_def)
      ultimately show ?thesis by simp
    qed
  qed
qed

lemma spec_identifier_refine:
  "spec_identifier (lexItems s) = map_option (\<lambda>(a, r). (a, lexItems r)) (identAt s)"
proof (cases s)
  case Nil
  then show ?thesis by (simp add: spec_identifier_def identAt_def)
next
  case (Cons c cs)
  then show ?thesis
    by (auto simp: spec_identifier_def identAt_def startsIdent_def isIdentStart_word)
qed

lemma lexItems_head_dot:
  "(\<exists>r. lexItems (d # r2) = S dot # r) = (d = dot)"
  by (auto simp: isWordChar_dot)

lemma spec_quoted_pair_refine:
  "spec_quoted_pair (lexItems s) = map_option (\<lambda>(q, r). (q, lexItems r)) (quotedPairAt s)"
proof (cases "quotedAt s")
  case None
  then show ?thesis
    by (simp add: spec_quoted_pair_def quotedPairAt_def spec_quoted_refine)
next
  case (Some x)
  obtain q1 r1 where x: "x = (q1, r1)" by (cases x)
  have sq: "spec_quoted (lexItems s) = Some (q1, lexItems r1)"
    using Some x by (simp add: spec_quoted_refine)
  show ?thesis
  proof (cases r1)
    case Nil
    with Some x sq show ?thesis
      by (simp add: spec_quoted_pair_def quotedPairAt_def)
  next
    case (Cons d r2)
    show ?thesis
    proof (cases "d = dot")
      case True
      then have "lexItems r1 = S dot # lexItems r2"
        using Cons by (simp add: isWordChar_dot)
      with Some x sq Cons True show ?thesis
        by (simp add: spec_quoted_pair_def quotedPairAt_def spec_quoted_refine
            split: option.splits)
    next
      case False
      then have "hd (lexItems r1) \<noteq> S dot" using Cons by auto
      moreover have "lexItems r1 \<noteq> []" using Cons by (simp add: lexItems_Nil)
      ultimately have "spec_quoted_pair (lexItems s) = None"
        using sq by (cases "lexItems r1") (auto simp: spec_quoted_pair_def)
      with Some x Cons False show ?thesis
        by (simp add: quotedPairAt_def)
    qed
  qed
qed

lemma spec_target_refine:
  "spec_target (lexItems s) = map_option (\<lambda>(t, r). (t, lexItems r)) (fromJoinTargetAt s)"
proof (cases "quotedPairAt s")
  case (Some x)
  then show ?thesis
    by (simp add: spec_target_def fromJoinTargetAt_def spec_quoted_pair_refine)
next
  case np: None
  show ?thesis
  proof (cases "quotedAt s")
    case (Some x)
    with np show ?thesis
      by (simp add: spec_target_def fromJoinTargetAt_def spec_quoted_pair_refine
          spec_quoted_refine)
  next
    case nq: None
    show ?thesis
    proof (cases "identAt s")
      case None
      with np nq show ?thesis
        by (simp add: spec_target_def fromJoinTargetAt_def spec_quoted_pair_refine
            spec_quoted_refine spec_identifier_refine)
    next
      case (Some x)
      obtain a r1 where x: "x = (a, r1)" by (cases x)
      have si: "spec_identifier (lexItems s) = Some (a, lexItems r1)"
        using Some x by (simp add: spec_identifier_refine)
      have st: "spec_target (lexItems s) =
            (case lexItems r1 of
               [] \<Rightarrow> Some (a, lexItems r1)
             | d # r2 \<Rightarrow>
                 if d \<noteq> S dot then Some (a, lexItems r1)
                 else (case spec_identifier r2 of
                         None \<Rightarrow> Some (a, lexItems r1)
                       | Some (b, r3) \<Rightarrow> Some (a @ [dot] @ b, r3)))"
        using np nq si
        by (simp add: spec_target_def spec_quoted_pair_refine spec_quoted_refine)
      have ft: "fromJoinTargetAt s =
            (case r1 of
               [] \<Rightarrow> Some (a, r1)
             | d # r2 \<Rightarrow>
                 if d \<noteq> dot then Some (a, r1)
                 else (case identAt r2 of
                         None \<Rightarrow> Some (a, r1)
                       | Some (b, r3) \<Rightarrow> Some (a @ [dot] @ b, r3)))"
        using np nq Some x by (simp add: fromJoinTargetAt_def)
      show ?thesis
      proof (cases r1)
        case Nil
        then show ?thesis unfolding st ft by simp
      next
        case (Cons d r2)
        show ?thesis
        proof (cases "d = dot")
          case True
          then have "lexItems r1 = S dot # lexItems r2"
            using Cons by (simp add: isWordChar_dot)
          then show ?thesis
            unfolding st ft using Cons True
            by (simp add: spec_identifier_refine split: option.splits)
        next
          case False
          then have "hd (lexItems r1) \<noteq> S dot" using Cons by auto
          moreover have "lexItems r1 \<noteq> []" using Cons by (simp add: lexItems_Nil)
          ultimately show ?thesis
            unfolding st ft using Cons False
            by (cases "lexItems r1") auto
        qed
      qed
    qed
  qed
qed

lemma isSpaceChar_not_word: "isSpaceChar c \<Longrightarrow> \<not> isWordChar c"
  by (auto simp: isSpaceChar_def isWordChar_def Let_def)

lemma space_items:
  "takeWhile isSpaceItem (lexItems r) = map S (takeWhile isSpaceChar r) \<and>
   dropWhile isSpaceItem (lexItems r) = lexItems (dropWhile isSpaceChar r)"
proof (induction r)
  case Nil
  then show ?case by simp
next
  case (Cons c cs)
  show ?case
  proof (cases "isSpaceChar c")
    case True
    then have "lexItems (c # cs) = S c # lexItems cs"
      by (simp add: isSpaceChar_not_word)
    with True Cons show ?thesis by (simp add: isSpaceItem_def)
  next
    case False
    then have "\<not> isSpaceItem (hd (lexItems (c # cs)))"
      by (auto simp: isSpaceItem_def)
    moreover have "lexItems (c # cs) \<noteq> []" by (simp add: lexItems_Nil)
    ultimately have "takeWhile isSpaceItem (lexItems (c # cs)) = [] \<and>
        dropWhile isSpaceItem (lexItems (c # cs)) = lexItems (c # cs)"
      by (cases "lexItems (c # cs)") auto
    with False show ?thesis by simp
  qed
qed

lemma canonicalize_word: "isWordChar (canonicalize x) \<Longrightarrow> isWordChar x"
  by (auto simp: canonicalize_def isWordChar_def Let_def split: if_splits)

lemma isKeyword_word: "isKeyword k \<Longrightarrow> length k = 4 \<and> (\<forall>x \<in> set k. isWordChar x)"
proof -
  assume k: "isKeyword k"
  then have m: "map canonicalize k = ''FROM'' \<or> map canonicalize k = ''JOIN''"
    by (simp add: isKeyword_def)
  then have l: "length k = 4"
    using length_map[of canonicalize k] by auto
  have "\<forall>y \<in> set (map canonicalize k). isWordChar y"
    using m by (auto simp: isWordChar_def)
  then have "\<forall>x \<in> set k. isWordChar x"
    by (auto intro: canonicalize_word)
  with l show ?thesis by simp
qed

lemma keywordAt_isKeyword:
  "keywordAt True s = (if isKeyword (take 4 s) then Some (take 4 s, drop 4 s) else None)"
  by (simp add: keywordAt_def isKeyword_def Let_def)

lemma reFromJoin_word:
  assumes np: "\<not> prevWord prev" and c: "isWordChar c"
  shows "reFromJoin prev (c # cs) =
     (if isKeyword (c # takeWhile isWordChar cs) \<and> takeWhile isSpaceChar (dropWhile isWordChar cs) \<noteq> []
      then (case fromJoinTargetAt (dropWhile isSpaceChar (dropWhile isWordChar cs)) of
              None \<Rightarrow> None
            | Some (full, r2) \<Rightarrow>
                Some ((c # takeWhile isWordChar cs) @ takeWhile isSpaceChar (dropWhile isWordChar cs) @ full, full))
      else None)"
proof -
  let ?s = "c # cs"
  let ?w = "c # takeWhile isWordChar cs"
  let ?r = "dropWhile isWordChar cs"
  have s: "?s = ?w @ ?r" by simp
  have wb: "wordBoundary prev ?s" using np c by (simp add: wordBoundary_start)
  have tw: "takeWhile isWordChar ?s = ?w" using c by simp
  show ?thesis
  proof (cases "isKeyword ?w")
    case True
    then have "length ?w = 4" using isKeyword_word by blast
    then have "take 4 ?s = ?w" "drop 4 ?s = ?r"
      using s by (metis append_eq_conv_conj)+
    then have "keywordAt True ?s = Some (?w, ?r)"
      using True by (simp add: keywordAt_isKeyword)
    then show ?thesis
      unfolding reFromJoin_def using wb True
      by (simp add: spacesAt_def Let_def split: option.splits)
  next
    case False
    have "keywordAt True ?s = None \<or> spacesAt (drop 4 ?s) = None"
    proof (rule ccontr)
      assume "\<not> ?thesis"
      then have k0: "isKeyword (take 4 ?s)" and sp: "takeWhile isSpaceChar (drop 4 ?s) \<noteq> []"
        by (auto simp: keywordAt_isKeyword spacesAt_def Let_def split: if_splits)
      define k where "k = take 4 ?s"
      have k: "isKeyword k" using k0 unfolding k_def .
      then have kw: "\<forall>x \<in> set k. isWordChar x"
        using isKeyword_word by blast
      from sp obtain d r where dr: "drop 4 ?s = d # r" and d: "isSpaceChar d"
        by (cases "drop 4 ?s") (auto split: if_splits)
      have e: "k @ d # r = ?s"
        unfolding k_def dr[symmetric] by (rule append_take_drop_id)
      have "takeWhile isWordChar (k @ d # r) = k"
        using kw d by (subst takeWhile_append2) (auto simp: isSpaceChar_not_word)
      then have "takeWhile isWordChar ?s = k" unfolding e .
      with tw have "?w = k" by metis
      with k False show False by simp
    qed
    then show ?thesis
      unfolding reFromJoin_def using False
      by (auto simp: keywordAt_isKeyword split: option.splits if_splits)
  qed
qed

lemma reFromJoin_atWordStart: "atWordStart reFromJoin"
  unfolding atWordStart_def
proof (intro allI impI)
  fix prev s
  assume a: "reFromJoin prev s \<noteq> None"
  then have wb: "wordBoundary prev s" and k: "isKeyword (take 4 s)"
    by (auto simp: reFromJoin_def keywordAt_isKeyword split: if_splits option.splits)
  from k have l: "length (take 4 s) = 4" and w: "\<forall>x \<in> set (take 4 s). isWordChar x"
    using isKeyword_word by blast+
  from l obtain c cs where s: "s = c # cs" by (cases s) auto
  with w have "isWordChar c" by simp
  with wb s show "s \<noteq> [] \<and> isWordChar (hd s) \<and> \<not> prevWord prev"
    by (simp add: wordBoundary_start)
qed

lemma fromJoinTargetAt_end:
  "fromJoinTargetAt s = Some (full, r2) \<Longrightarrow>
     r2 = [] \<or> \<not> isWordChar (hd r2) \<or> \<not> isWordChar (last full)"
proof -
  assume a: "fromJoinTargetAt s = Some (full, r2)"
  have q: "\<And>s q r. quotedAt s = Some (q, r) \<Longrightarrow> last q = dq"
    by (auto simp: quotedAt_def Let_def split: list.splits if_splits)
  have i: "\<And>s a r. identAt s = Some (a, r) \<Longrightarrow> r = [] \<or> \<not> isWordChar (hd r)"
    using dropWhile_word_start by (auto simp: identAt_def split: list.splits if_splits)
  have p: "\<And>s q r. quotedPairAt s = Some (q, r) \<Longrightarrow> last q = dq"
  proof -
    fix s q r
    assume "quotedPairAt s = Some (q, r)"
    then obtain q1 q2 r2 where "q = q1 @ [dot] @ q2" "quotedAt r2 = Some (q2, r)"
      by (auto simp: quotedPairAt_def split: option.splits list.splits if_splits)
    then show "last q = dq"
      using q[of r2 q2 r] quotedAt_sound[of r2 q2 r] by simp
  qed
  from a show ?thesis
    by (auto simp: fromJoinTargetAt_def isWordChar_dq split: option.splits list.splits if_splits
        dest: q p i)
qed

lemma targets_refine:
  "s = [] \<or> \<not> isWordChar (hd s) \<or> \<not> prevWord prev \<Longrightarrow>
     execAll reFromJoin prev s = spec_targets (lexItems s)"
proof (induction "length s" arbitrary: s prev rule: less_induct)
  case less
  note aw = reFromJoin_atWordStart
  show ?case
  proof (cases s)
    case Nil
    have "reFromJoin prev [] = None"
      by (rule atWordStart_None[OF aw]) simp
    with Nil show ?thesis by simp
  next
    case (Cons c cs)
    show ?thesis
    proof (cases "isWordChar c")
      case False
      have n: "reFromJoin prev (c # cs) = None"
        using False by (intro atWordStart_None[OF aw]) simp
      have "execAll reFromJoin (Some c) cs = spec_targets (lexItems cs)"
        using False by (intro less.hyps) (simp_all add: Cons prevWord_def)
      with n False Cons show ?thesis by simp
    next
      case True
      with less.prems Cons have np: "\<not> prevWord prev" by simp
      let ?w = "c # takeWhile isWordChar cs"
      let ?r = "dropWhile isWordChar cs"
      let ?ws = "takeWhile isSpaceChar ?r"
      let ?r1 = "dropWhile isSpaceChar ?r"
      have lx: "lexItems s = W ?w # lexItems ?r"
        using True Cons by simp
      have rs: "?r = [] \<or> \<not> isWordChar (hd ?r)"
        by (rule dropWhile_word_start)
      have re: "reFromJoin prev (c # cs) =
         (if isKeyword ?w \<and> ?ws \<noteq> []
          then (case fromJoinTargetAt ?r1 of
                  None \<Rightarrow> None
                | Some (full, r2) \<Rightarrow> Some (?w @ ?ws @ full, full))
          else None)"
        by (rule reFromJoin_word[OF np True])
      have sp: "spec_targets (lexItems s) =
         (if isKeyword ?w \<and> ?ws \<noteq> []
          then (case fromJoinTargetAt ?r1 of
                  None \<Rightarrow> spec_targets (lexItems ?r)
                | Some (full, r2) \<Rightarrow> full # spec_targets (lexItems r2))
          else spec_targets (lexItems ?r))"
        unfolding lx using space_items[of ?r]
        by (simp add: spec_target_refine split: option.splits)
      have skip: "reFromJoin prev (c # cs) = None \<Longrightarrow>
          execAll reFromJoin prev s = spec_targets (lexItems ?r)"
      proof -
        assume n: "reFromJoin prev (c # cs) = None"
        have pw: "prevWord (Some c)"
          using True by (simp add: prevWord_def)
        have tw: "\<forall>x \<in> set (takeWhile isWordChar cs). isWordChar x"
          by (auto dest: set_takeWhileD)
        have "execAll reFromJoin prev s = execAll reFromJoin (Some c) (takeWhile isWordChar cs @ ?r)"
          unfolding Cons using n by simp
        also have "\<dots> = execAll reFromJoin (Some (last ?w)) ?r"
          using execAll_skip_word[OF aw pw tw, of ?r] by simp
        also have "\<dots> = spec_targets (lexItems ?r)"
          using rs by (intro less.hyps) (auto simp: Cons length_dropWhile_le less_Suc_eq_le)
        finally show ?thesis .
      qed
      show ?thesis
      proof (cases "isKeyword ?w \<and> ?ws \<noteq> []")
        case False
        with re have "reFromJoin prev (c # cs) = None" by simp
        from skip[OF this] sp False show ?thesis by simp
      next
        case kw: True
        show ?thesis
        proof (cases "fromJoinTargetAt ?r1")
          case None
          with re kw have "reFromJoin prev (c # cs) = None" by simp
          from skip[OF this] sp kw None show ?thesis by simp
        next
          case (Some x)
          obtain full r2 where x: "x = (full, r2)" by (cases x)
          let ?m0 = "?w @ ?ws @ full"
          have m: "reFromJoin prev (c # cs) = Some (?m0, full)"
            using re kw Some x by simp
          have f: "?r1 = full @ r2" "full \<noteq> []"
            using fromJoinTargetAt_sound[of ?r1 full r2] Some x by simp_all
          have "c # cs = ?w @ (?ws @ ?r1)"
            by (simp only: takeWhile_dropWhile_id) simp
          then have dec: "c # cs = ?m0 @ r2"
            using f(1) by simp
          have d: "drop (length ?m0) (c # cs) = r2"
            using dec by (metis append_eq_conv_conj)
          have len: "length r2 < length s"
            using arg_cong[OF dec, of length] Cons by simp
          have l: "last ?m0 = last full"
            using f(2) by simp
          have ih: "execAll reFromJoin (Some (last ?m0)) r2 = spec_targets (lexItems r2)"
            using fromJoinTargetAt_end[of ?r1 full r2] Some x
            unfolding l by (intro less.hyps[OF len]) (auto simp: prevWord_def)
          have "execAll reFromJoin prev s = full # execAll reFromJoin (Some (last ?m0)) r2"
            unfolding Cons using m d f(2) by simp
          with ih sp kw Some x show ?thesis by simp
        qed
      qed
    qed
  qed
qed

lemma execAll_reFromJoin_spec: "execAll reFromJoin None sql = spec_targets (lexItems sql)"
  by (rule targets_refine) (simp add: prevWord_def)

section \<open>Sets with insertion order\<close>

lemma set_foldl_setAdd: "set (foldl setAdd acc xs) = set acc \<union> set xs"
  by (induction xs arbitrary: acc) (auto simp: setAdd_def)

lemma distinct_foldl_setAdd: "distinct acc \<Longrightarrow> distinct (foldl setAdd acc xs)"
  by (induction xs arbitrary: acc) (auto simp: setAdd_def)

lemma set_newSet: "set (newSet xs) = set xs"
  by (simp add: newSet_def set_foldl_setAdd)

lemma distinct_newSet: "distinct (newSet xs)"
  by (simp add: newSet_def distinct_foldl_setAdd)

lemma foldl_foundStep:
  "foldl foundStep acc ms = foldl setAdd acc (map (\<lambda>(m1, m2). toLowerCase (m1 @ [dot] @ m2)) ms)"
  by (induction ms arbitrary: acc) (auto simp: foundStep_def)

lemma found_tokenNames: "foldl foundStep [] (execAll reSchemaTable None sql) = newSet (tokenNames sql)"
  by (simp add: foldl_foundStep newSet_def tokenNames_def)

lemma filter_single:
  assumes "length (filter P xs) = 1"
  shows "{t \<in> set xs. P t \<and> (\<forall>u \<in> set xs. P u \<longrightarrow> u = t)} = {filter P xs ! 0}"
proof -
  from assms obtain t where t: "filter P xs = [t]"
    by (cases "filter P xs") auto
  then have "set (filter P xs) = {t}" by simp
  then have "{u \<in> set xs. P u} = {t}" by auto
  then show ?thesis using t by auto
qed

lemma filter_not_single:
  assumes "distinct xs" "length (filter P xs) \<noteq> 1"
  shows "{t \<in> set xs. P t \<and> (\<forall>u \<in> set xs. P u \<longrightarrow> u = t)} = {}"
proof (rule ccontr)
  assume "{t \<in> set xs. P t \<and> (\<forall>u \<in> set xs. P u \<longrightarrow> u = t)} \<noteq> {}"
  then obtain t where t: "t \<in> set xs" "P t" "\<forall>u \<in> set xs. P u \<longrightarrow> u = t" by blast
  have "{u \<in> set xs. P u} = {t}" using t by blast
  then have "set (filter P xs) = {t}" by simp
  moreover have "distinct (filter P xs)" using assms(1) by simp
  ultimately have "length (filter P xs) = card {t}"
    using distinct_card by metis
  with assms(2) show False by simp
qed

lemma set_inferStep:
  assumes "distinct st"
  shows "set (inferStep st inferred full) = set inferred \<union> spec_resolved (set st) full"
proof -
  let ?parts = "splitOn dot (stripQuotes full)"
  let ?P = "\<lambda>t. endsWith t (dot # toLowerCase (?parts ! 0))"
  let ?U = "{t \<in> set st. ?P t \<and> (\<forall>u \<in> set st. ?P u \<longrightarrow> u = t)}"
  consider (two) "length ?parts = 2" | (one) "length ?parts = 1" "length (filter ?P st) = 1"
    | (amb) "length ?parts = 1" "length (filter ?P st) \<noteq> 1" | (other) "length ?parts \<noteq> 2" "length ?parts \<noteq> 1"
    by blast
  then show ?thesis
  proof cases
    case two
    then show ?thesis by (auto simp: inferStep_def spec_resolved_def Let_def setAdd_def)
  next
    case one
    have "spec_resolved (set st) full = ?U"
      using one(1) by (simp add: spec_resolved_def Let_def)
    also have "\<dots> = {filter ?P st ! 0}"
      by (rule filter_single[OF one(2)])
    finally have r: "spec_resolved (set st) full = {filter ?P st ! 0}" .
    have "inferStep st inferred full = setAdd inferred (filter ?P st ! 0)"
      using one by (simp add: inferStep_def Let_def suffixMatches_def)
    then show ?thesis using r by (auto simp: setAdd_def)
  next
    case amb
    have "spec_resolved (set st) full = ?U"
      using amb(1) by (simp add: spec_resolved_def Let_def)
    also have "\<dots> = {}"
      by (rule filter_not_single[OF assms amb(2)])
    finally have r: "spec_resolved (set st) full = {}" .
    have "inferStep st inferred full = inferred"
      using amb by (simp add: inferStep_def Let_def suffixMatches_def)
    then show ?thesis using r by simp
  next
    case other
    then show ?thesis by (simp add: inferStep_def spec_resolved_def Let_def)
  qed
qed

lemma set_foldl_inferStep:
  assumes "distinct st"
  shows "set (foldl (inferStep st) acc ts) = set acc \<union> (\<Union>full \<in> set ts. spec_resolved (set st) full)"
  using assms by (induction ts arbitrary: acc) (auto simp: set_inferStep)

lemma distinct_inferStep: "distinct inferred \<Longrightarrow> distinct (inferStep st inferred full)"
  by (simp add: inferStep_def Let_def setAdd_def)

lemma distinct_foldl_inferStep: "distinct acc \<Longrightarrow> distinct (foldl (inferStep st) acc ts)"
  by (induction ts arbitrary: acc) (auto simp: distinct_inferStep)

lemma foldl_setAdd_Nil_distinct: "distinct xs \<Longrightarrow> foldl setAdd [] xs = xs"
proof (induction xs rule: rev_induct)
  case Nil
  then show ?case by simp
next
  case (snoc x xs)
  then show ?case by (simp add: setAdd_def)
qed

section \<open>TableValidator: the result in closed form\<close>

text \<open>
  Both scans and the fallback in one expression: the found tables are the names of the
  first scan when there are any, and what the second scan infers otherwise.
\<close>

lemma validateSqlTables_eq:
  "validateSqlTables sql allowedTables =
     (let st = newSet (map toLowerCase allowedTables);
          found = (if tokenNames sql = []
                   then foldl (inferStep st) [] (fromJoinTargets sql)
                   else newSet (tokenNames sql));
          unk = filter (\<lambda>f. f \<notin> set st) found
      in \<lparr>ok = (unk = [] \<and> found \<noteq> []), unknown = unk, noneFound = (found = []), foundTables = found\<rparr>)"
proof -
  have ne: "newSet xs = [] \<longleftrightarrow> xs = []" for xs
    using set_newSet[of xs] by (metis set_empty)
  have nil: "newSet [] = []"
    by (simp add: newSet_def)
  show ?thesis
    by (auto simp: validateSqlTables_def Let_def found_tokenNames ne nil fromJoinTargets_def
        foldl_setAdd_Nil_distinct distinct_foldl_inferStep)
qed

text \<open>
  The two scans of the code find what the spec's reading of the text finds.
\<close>

lemma tokenNames_spec: "tokenNames sql = spec_tokenNames sql"
  by (simp add: tokenNames_def spec_tokenNames_def execAll_reSchemaTable_spec)

lemma fromJoinTargets_spec: "fromJoinTargets sql = spec_fromJoinTargets sql"
  by (simp add: fromJoinTargets_def spec_fromJoinTargets_def execAll_reFromJoin_spec)

text \<open>
  C1, as amended. For every SQL text and allow-list: \<open>ok\<close> holds exactly when no table is
  unknown and \<open>noneFound\<close> is false; the found tables are the lower-cased
  \<open>identifier.identifier\<close> tokens of the whole text, those inside double quotes
  included, or, only when there is no such token, what the \<open>FROM\<close>/\<open>JOIN\<close> targets
  resolve to (a single-part name counting only when exactly one lower-cased allow-listed
  table ends with \<open>.bareName\<close>); the unknown tables are the found tables without the
  lower-cased allow-list; \<open>noneFound\<close> says that no table was found.
\<close>

theorem validateSqlTables_spec:
  "ok (validateSqlTables sql allowedTables) =
     (unknown (validateSqlTables sql allowedTables) = [] \<and> \<not> noneFound (validateSqlTables sql allowedTables))
   \<and> set (foundTables (validateSqlTables sql allowedTables)) =
       (if set (spec_tokenNames sql) = {}
        then (\<Union>full \<in> set (spec_fromJoinTargets sql). spec_resolved (toLowerCase ` set allowedTables) full)
        else set (spec_tokenNames sql))
   \<and> set (unknown (validateSqlTables sql allowedTables)) =
       set (foundTables (validateSqlTables sql allowedTables)) - toLowerCase ` set allowedTables
   \<and> distinct (foundTables (validateSqlTables sql allowedTables))
   \<and> noneFound (validateSqlTables sql allowedTables) = (foundTables (validateSqlTables sql allowedTables) = [])"
  unfolding tokenNames_spec[symmetric] fromJoinTargets_spec[symmetric]
  by (auto simp: validateSqlTables_eq Let_def set_newSet distinct_newSet set_foldl_inferStep
      distinct_foldl_inferStep)

theorem validateSqlTables_spec_witness:
  "validateSqlTables sqlTwoTokens [''public.Producto''] =
     \<lparr>ok = False, unknown = [''ventas.item''], noneFound = False,
      foundTables = [''public.producto'', ''ventas.item'']\<rparr>
   \<and> set (spec_tokenNames sqlTwoTokens) = {''public.producto'', ''ventas.item''}
   \<and> validateSqlTables sqlBareProducto [''public.Producto'', ''public.Venta''] =
       \<lparr>ok = True, unknown = [], noneFound = False, foundTables = [''public.producto'']\<rparr>
   \<and> set (spec_tokenNames sqlBareProducto) = {}
   \<and> spec_fromJoinTargets sqlBareProducto = [''producto'']
   \<and> (\<Union>full \<in> set (spec_fromJoinTargets sqlBareProducto).
         spec_resolved (toLowerCase ` set [''public.Producto'', ''public.Venta'']) full) = {''public.producto''}"
proof -
  have e1: "validateSqlTables sqlTwoTokens [''public.Producto''] =
     \<lparr>ok = False, unknown = [''ventas.item''], noneFound = False,
      foundTables = [''public.producto'', ''ventas.item'']\<rparr>"
    by code_simp
  have n1: "spec_tokenNames sqlTwoTokens \<noteq> []"
    by code_simp
  have e2: "validateSqlTables sqlBareProducto [''public.Producto'', ''public.Venta''] =
     \<lparr>ok = True, unknown = [], noneFound = False, foundTables = [''public.producto'']\<rparr>"
    by code_simp
  have t2: "spec_tokenNames sqlBareProducto = []"
    by code_simp
  have f2: "spec_fromJoinTargets sqlBareProducto = [''producto'']"
    by code_simp
  have a: "set (spec_tokenNames sqlTwoTokens) = {''public.producto'', ''ventas.item''}"
    using validateSqlTables_spec [of sqlTwoTokens "[''public.Producto'']"] n1
    unfolding e1 by simp
  have b: "(\<Union>full \<in> set (spec_fromJoinTargets sqlBareProducto).
         spec_resolved (toLowerCase ` set [''public.Producto'', ''public.Venta'']) full) = {''public.producto''}"
    using validateSqlTables_spec [of sqlBareProducto "[''public.Producto'', ''public.Venta'']"]
    unfolding e2 t2 by simp
  from e1 a e2 t2 f2 b show ?thesis by simp
qed

text \<open>
  The claim as stated, with unquoted tokens only, fails: in
  \<open>SELECT "a.b" FROM public.t\<close> the only \<open>identifier.identifier\<close> token outside double
  quotes is \<open>public.t\<close>, which is allow-listed, but the scan also finds \<open>a.b\<close> inside
  the quoted column name and reports it as unknown.
\<close>

theorem validateSqlTables_unquoted_counterexample:
  "spec_unquotedTokenNames sqlQuotedColumn = [''public.t'']
   \<and> validateSqlTables sqlQuotedColumn [''public.t''] =
       \<lparr>ok = False, unknown = [''a.b''], noneFound = False, foundTables = [''a.b'', ''public.t'']\<rparr>
   \<and> set (foundTables (validateSqlTables sqlQuotedColumn [''public.t''])) \<noteq>
       set (spec_unquotedTokenNames sqlQuotedColumn)"
  by code_simp

section \<open>TableValidator: bare names that do not resolve\<close>

lemma splitOn_no_sep: "d \<notin> set s \<Longrightarrow> splitOn d s = [s]"
  by (induction s) auto

lemma isWordChar_not_dq: "isWordChar c \<Longrightarrow> c \<noteq> dq"
  by (auto simp: isWordChar_def dq_def)

lemma isWordChar_not_dot: "isWordChar c \<Longrightarrow> c \<noteq> dot"
  by (auto simp: isWordChar_def dot_def)

lemma isIdentStart_isWordChar: "isIdentStart c \<Longrightarrow> isWordChar c"
  by (auto simp: isWordChar_def isIdentStart_def Let_def)

lemma isBareName_word: "isBareName full \<Longrightarrow> \<forall>c \<in> set full. isWordChar c"
  by (cases full) (auto simp: isBareName_def list_all_iff isIdentStart_isWordChar)

lemma isBareName_parts:
  assumes "isBareName full"
  shows "splitOn dot (stripQuotes full) = [full]"
proof -
  have w: "\<forall>c \<in> set full. isWordChar c"
    using assms by (rule isBareName_word)
  then have "stripQuotes full = full"
    unfolding stripQuotes_def using isWordChar_not_dq by (simp add: filter_id_conv)
  moreover have "dot \<notin> set full"
    using w isWordChar_not_dot by blast
  ultimately show ?thesis by (simp add: splitOn_no_sep)
qed

lemma inferStep_unresolved:
  assumes "isBareName full" and "length (suffixMatches st (toLowerCase full)) \<noteq> 1"
  shows "inferStep st inferred full = inferred"
  using assms(2) by (simp add: inferStep_def isBareName_parts[OF assms(1)])

lemma foldl_unchanged: "\<forall>x \<in> set xs. \<forall>a. f a x = a \<Longrightarrow> foldl f a xs = a"
  by (induction xs arbitrary: a) auto

text \<open>
  C10. In the fallback a bare single-part name whose suffix match against the allow-list
  has no or several candidates leaves the inferred set as it is; so when the text has no
  \<open>identifier.identifier\<close> token and every \<open>FROM\<close>/\<open>JOIN\<close> target is such a name,
  the validator answers \<open>noneFound\<close> with no found and no unknown table, and \<open>ok\<close> is
  false.
\<close>

theorem unresolved_bare_names:
  assumes "\<forall>full \<in> set (fromJoinTargets sql).
             isBareName full \<and>
             length (suffixMatches (newSet (map toLowerCase allowedTables)) (toLowerCase full)) \<noteq> 1"
  shows "(\<forall>full \<in> set (fromJoinTargets sql). \<forall>inferred.
            inferStep (newSet (map toLowerCase allowedTables)) inferred full = inferred)
       \<and> (tokenNames sql = [] \<longrightarrow>
            noneFound (validateSqlTables sql allowedTables)
          \<and> unknown (validateSqlTables sql allowedTables) = []
          \<and> foundTables (validateSqlTables sql allowedTables) = []
          \<and> \<not> ok (validateSqlTables sql allowedTables))"
proof -
  let ?st = "newSet (map toLowerCase allowedTables)"
  have step: "\<forall>full \<in> set (fromJoinTargets sql). \<forall>inferred. inferStep ?st inferred full = inferred"
    using assms inferStep_unresolved by blast
  then have "foldl (inferStep ?st) [] (fromJoinTargets sql) = []"
    by (rule foldl_unchanged)
  then have "tokenNames sql = [] \<longrightarrow>
            noneFound (validateSqlTables sql allowedTables)
          \<and> unknown (validateSqlTables sql allowedTables) = []
          \<and> foundTables (validateSqlTables sql allowedTables) = []
          \<and> \<not> ok (validateSqlTables sql allowedTables)"
    by (simp add: validateSqlTables_eq Let_def)
  with step show ?thesis by blast
qed

theorem unresolved_bare_names_witness:
  "fromJoinTargets ''SELECT * FROM x JOIN y ON 1'' = [''x'', ''y'']
   \<and> isBareName ''x'' \<and> isBareName ''y''
   \<and> suffixMatches (newSet (map toLowerCase [''a.x'', ''b.x''])) (toLowerCase ''x'') = [''a.x'', ''b.x'']
   \<and> suffixMatches (newSet (map toLowerCase [''a.x'', ''b.x''])) (toLowerCase ''y'') = []
   \<and> tokenNames ''SELECT * FROM x JOIN y ON 1'' = []
   \<and> noneFound (validateSqlTables ''SELECT * FROM x JOIN y ON 1'' [''a.x'', ''b.x''])
   \<and> unknown (validateSqlTables ''SELECT * FROM x JOIN y ON 1'' [''a.x'', ''b.x'']) = []
   \<and> foundTables (validateSqlTables ''SELECT * FROM x JOIN y ON 1'' [''a.x'', ''b.x'']) = []
   \<and> \<not> ok (validateSqlTables ''SELECT * FROM x JOIN y ON 1'' [''a.x'', ''b.x''])"
proof -
  have t: "fromJoinTargets ''SELECT * FROM x JOIN y ON 1'' = [''x'', ''y'']"
    by code_simp
  have b: "isBareName ''x'' \<and> isBareName ''y''"
    by code_simp
  have mx: "suffixMatches (newSet (map toLowerCase [''a.x'', ''b.x''])) (toLowerCase ''x'') = [''a.x'', ''b.x'']"
    by code_simp
  have my: "suffixMatches (newSet (map toLowerCase [''a.x'', ''b.x''])) (toLowerCase ''y'') = []"
    by code_simp
  have n: "tokenNames ''SELECT * FROM x JOIN y ON 1'' = []"
    by code_simp
  have h: "\<forall>full \<in> set (fromJoinTargets ''SELECT * FROM x JOIN y ON 1'').
             isBareName full \<and>
             length (suffixMatches (newSet (map toLowerCase [''a.x'', ''b.x''])) (toLowerCase full)) \<noteq> 1"
    unfolding t using b mx my by simp
  from unresolved_bare_names [OF h] n t b mx my show ?thesis by blast
qed

section \<open>TableValidator: quoted targets when the first scan finds a token\<close>

text \<open>
  C4, as amended. When the text has at least one \<open>identifier.identifier\<close> token, a token
  inside double quotes counting like any other, the fallback is not run: the found tables
  are exactly the lower-cased tokens in the order of their first occurrence, the unknown
  tables are those of them that are not in the lower-cased allow-list, and what a quoted
  \<open>FROM\<close>/\<open>JOIN\<close> target resolves to is found or unknown only if it is one of these
  tokens.
\<close>

theorem tokens_preempt_fallback:
  assumes "spec_tokenNames sql \<noteq> []"
  shows "foundTables (validateSqlTables sql allowedTables) = newSet (spec_tokenNames sql)
       \<and> unknown (validateSqlTables sql allowedTables) =
           filter (\<lambda>t. t \<notin> toLowerCase ` set allowedTables) (newSet (spec_tokenNames sql))
       \<and> (\<forall>full \<in> set (spec_quotedTargets sql).
            \<forall>t \<in> spec_resolved (toLowerCase ` set allowedTables) full.
              t \<notin> set (spec_tokenNames sql) \<longrightarrow>
                t \<notin> set (foundTables (validateSqlTables sql allowedTables))
              \<and> t \<notin> set (unknown (validateSqlTables sql allowedTables)))"
  using assms unfolding tokenNames_spec[symmetric]
  by (simp add: validateSqlTables_eq Let_def set_newSet)

theorem tokens_preempt_fallback_witness:
  "spec_tokenNames sqlAliasSecret = [''t.x'']
   \<and> spec_quotedTargets sqlAliasSecret = [secretTarget]
   \<and> ''s.secret'' \<in> spec_resolved (toLowerCase ` set [''t.x'']) secretTarget
   \<and> foundTables (validateSqlTables sqlAliasSecret [''t.x'']) = [''t.x'']
   \<and> unknown (validateSqlTables sqlAliasSecret [''t.x'']) = []
   \<and> ''s.secret'' \<notin> set (foundTables (validateSqlTables sqlAliasSecret [''t.x'']))
   \<and> ''s.secret'' \<notin> set (unknown (validateSqlTables sqlAliasSecret [''t.x'']))"
proof -
  have t: "spec_tokenNames sqlAliasSecret = [''t.x'']"
    by code_simp
  have q: "spec_quotedTargets sqlAliasSecret = [secretTarget]"
    by code_simp
  have p: "splitOn dot (stripQuotes secretTarget) = [''s'', ''secret'']"
    by code_simp
  have l: "toLowerCase (''s'' @ [dot] @ ''secret'') = ''s.secret''"
    by code_simp
  have n: "newSet [''t.x''] = [''t.x'']"
    by code_simp
  have a: "toLowerCase ` set [''t.x''] = {''t.x''}"
    by code_simp
  have h: "spec_tokenNames sqlAliasSecret \<noteq> []"
    unfolding t by simp
  note inst = tokens_preempt_fallback [OF h, of "[''t.x'']"]
  have f: "foundTables (validateSqlTables sqlAliasSecret [''t.x'']) = [''t.x'']"
    using inst unfolding t n by blast
  have u: "unknown (validateSqlTables sqlAliasSecret [''t.x'']) = []"
    using inst unfolding t n a by simp
  have m1: "secretTarget \<in> set (spec_quotedTargets sqlAliasSecret)"
    unfolding q by simp
  have m2: "''s.secret'' \<in> spec_resolved (toLowerCase ` set [''t.x'']) secretTarget"
    unfolding spec_resolved_def p Let_def using l by simp
  have m3: "''s.secret'' \<notin> set (spec_tokenNames sqlAliasSecret)"
    unfolding t by simp
  have "''s.secret'' \<notin> set (foundTables (validateSqlTables sqlAliasSecret [''t.x'']))
      \<and> ''s.secret'' \<notin> set (unknown (validateSqlTables sqlAliasSecret [''t.x'']))"
    using inst m1 m2 m3 by blast
  with t q m2 f u show ?thesis by blast
qed

text \<open>
  The claim as stated fails: \<open>SELECT x.y FROM "s.secret"\<close> has the unquoted token
  \<open>x.y\<close>, and yet the name of its quoted target, \<open>s.secret\<close>, is found and reported as
  unknown, because the scan reads the token inside the quotes.
\<close>

theorem quoted_target_found_counterexample:
  "spec_unquotedTokenNames sqlQuotedSecret = [''x.y'']
   \<and> spec_quotedTargets sqlQuotedSecret = [quotedSecret]
   \<and> inferStep (newSet (map toLowerCase [''x.y''])) [] quotedSecret = [''s.secret'']
   \<and> foundTables (validateSqlTables sqlQuotedSecret [''x.y'']) = [''x.y'', ''s.secret'']
   \<and> unknown (validateSqlTables sqlQuotedSecret [''x.y'']) = [''s.secret'']"
  by code_simp

section \<open>SqlExecutor: blocked, empty and failing queries\<close>

text \<open>Every found table is a non-empty text, so the first one is read when \<open>ok\<close> holds.\<close>

lemma endsWith_nonempty: "endsWith t (c # x) \<Longrightarrow> t \<noteq> []"
  by (auto simp: endsWith_def)

lemma tokenNames_nonempty: "t \<in> set (tokenNames sql) \<Longrightarrow> t \<noteq> []"
  by (auto simp: tokenNames_def toLowerCase_def)

lemma spec_resolved_nonempty: "t \<in> spec_resolved allow full \<Longrightarrow> t \<noteq> []"
  by (auto simp: spec_resolved_def Let_def toLowerCase_def endsWith_nonempty split: if_splits)

lemma foundTables_nonempty:
  assumes "t \<in> set (foundTables (validateSqlTables sql allowedTables))"
  shows "t \<noteq> []"
proof -
  have "set (foundTables (validateSqlTables sql allowedTables)) =
       (if set (tokenNames sql) = {}
        then (\<Union>full \<in> set (fromJoinTargets sql). spec_resolved (toLowerCase ` set allowedTables) full)
        else set (tokenNames sql))"
    by (simp add: validateSqlTables_eq Let_def set_newSet distinct_newSet set_foldl_inferStep)
  with assms have "t \<in> set (tokenNames sql)
      \<or> (\<exists>full. t \<in> spec_resolved (toLowerCase ` set allowedTables) full)"
    by (auto split: if_splits)
  then show ?thesis
    using tokenNames_nonempty spec_resolved_nonempty by blast
qed

lemma ok_first:
  assumes "ok (validateSqlTables sql allowedTables)"
  shows "nthOpt (foundTables (validateSqlTables sql allowedTables)) 0 =
           Some (hd (foundTables (validateSqlTables sql allowedTables)))
       \<and> hd (foundTables (validateSqlTables sql allowedTables)) \<noteq> []"
proof -
  have ne: "foundTables (validateSqlTables sql allowedTables) \<noteq> []"
    using assms by (auto simp: validateSqlTables_eq Let_def)
  then have "hd (foundTables (validateSqlTables sql allowedTables))
      \<in> set (foundTables (validateSqlTables sql allowedTables))"
    by simp
  then have "hd (foundTables (validateSqlTables sql allowedTables)) \<noteq> []"
    by (rule foundTables_nonempty)
  with ne show ?thesis by (simp add: nthOpt_def hd_conv_nth)
qed

text \<open>
  C2, as amended. When the text fails the validation that \<open>nodeExecuteSQL\<close> runs first,
  the node returns no rows and an answer that starts with \<open>Blocked execution.\<close>; the
  object it returns has no \<open>error\<close> field; and the trace of database calls is
  unchanged: no client is acquired and no query is sent.
\<close>

theorem blocked_execution:
  assumes "\<not> ok (validateSqlTables sql allowedTables)"
  shows "\<exists>msg. nodeExecuteSQL db sql allowedTables trace =
           (Inr \<lparr>rows = [], answer = Some (''Blocked execution. '' @ msg), error = None\<rparr>, trace)"
  using assms by (simp add: nodeExecuteSQL_def Let_def)

theorem blocked_execution_witness:
  "\<not> ok (validateSqlTables ''SELECT * FROM public.secret'' [''public.producto''])
   \<and> (\<exists>msg. nodeExecuteSQL emptyDb ''SELECT * FROM public.secret'' [''public.producto''] [] =
           (Inr \<lparr>rows = [], answer = Some (''Blocked execution. '' @ msg), error = None\<rparr>, []))"
proof -
  have h: "\<not> ok (validateSqlTables ''SELECT * FROM public.secret'' [''public.producto''])"
    by code_simp
  from blocked_execution [OF h] h show ?thesis by blast
qed

text \<open>
  The claim as stated fails on the tag: the object returned for a blocked query carries
  no error kind \<open>UNKNOWN_TABLES\<close>.
\<close>

theorem blocked_execution_counterexample:
  "\<not> ok (validateSqlTables ''SELECT * FROM public.secret'' [''public.producto''])
   \<and> fst (nodeExecuteSQL emptyDb ''SELECT * FROM public.secret'' [''public.producto''] []) =
       Inr \<lparr>rows = [], answer = Some ''Blocked execution. Unknown tables: public.secret'', error = None\<rparr>
   \<and> error \<lparr>rows = ([] :: nat list), answer = Some ''Blocked execution. Unknown tables: public.secret'',
             error = None\<rparr> \<noteq> Some ''UNKNOWN_TABLES''"
  by code_simp

text \<open>
  When the query passes validation, the client is acquired, the query returns no row and
  the count query returns, the node has sent \<open>SELECT COUNT(*)::int AS count\<close> for the
  first found table and answers \<open>No results. Diagnostics: "schema"."table" has N rows.\<close>
  with no rows, \<open>N\<close> being the count of the first row returned (0 when there is none).
\<close>

lemma empty_result_diagnostics:
  assumes "ok (validateSqlTables sql allowedTables)"
    and "connectError db = None"
    and "query db sql = Inr []"
    and "query db (countQuery (hd (foundTables (validateSqlTables sql allowedTables)))) = Inr countRes"
  shows "foundTables (validateSqlTables sql allowedTables) \<noteq> []
       \<and> nodeExecuteSQL db sql allowedTables trace =
           (Inr \<lparr>rows = [],
                 answer = Some (''No results. Diagnostics: ''
                   @ quotedName (hd (foundTables (validateSqlTables sql allowedTables)))
                   @ '' has '' @ showInt (totalOf db countRes) @ '' rows.''),
                 error = None\<rparr>,
            trace @ [Connect, Query sql,
                     Query (countQuery (hd (foundTables (validateSqlTables sql allowedTables)))), Release])"
proof -
  have ne: "foundTables (validateSqlTables sql allowedTables) \<noteq> []"
    using assms(1) by (auto simp: validateSqlTables_eq Let_def)
  have q: "''SELECT COUNT(*)::int AS count FROM ''
         @ quoteIdent (nthOpt (splitOn dot (hd (foundTables (validateSqlTables sql allowedTables)))) 0)
         @ [dot]
         @ quoteIdent (nthOpt (splitOn dot (hd (foundTables (validateSqlTables sql allowedTables)))) 1)
       = countQuery (hd (foundTables (validateSqlTables sql allowedTables)))"
    by (simp add: countQuery_def quotedName_def)
  show ?thesis
    using assms ok_first[OF assms(1)] ne q
    by (simp add: nodeExecuteSQL_def Let_def quotedName_def)
qed

lemma sqlProducto_ok: "validateSqlTables sqlProducto [''public.Producto''] =
   \<lparr>ok = True, unknown = [], noneFound = False, foundTables = [''public.producto'']\<rparr>"
  by code_simp

lemma empty_result_diagnostics_example:
  "ok (validateSqlTables sqlProducto [''public.Producto''])
   \<and> connectError emptyDb = None
   \<and> query emptyDb sqlProducto = Inr []
   \<and> query emptyDb (countQuery ''public.producto'') = Inr [42]
   \<and> nodeExecuteSQL emptyDb sqlProducto [''public.Producto''] [] =
       (Inr \<lparr>rows = [],
             answer = Some (''No results. Diagnostics: '' @ quoted ''public'' @ ''.'' @ quoted ''producto''
                            @ '' has 42 rows.''),
             error = None\<rparr>,
        [Connect, Query sqlProducto, Query (countQuery ''public.producto''), Release])"
proof -
  have v: "foundTables (validateSqlTables sqlProducto [''public.Producto'']) = [''public.producto'']"
    by (simp add: sqlProducto_ok)
  have h1: "ok (validateSqlTables sqlProducto [''public.Producto''])"
    by (simp add: sqlProducto_ok)
  have h2: "connectError emptyDb = None"
    by (simp add: emptyDb_def)
  have h3: "query emptyDb sqlProducto = Inr []"
    by code_simp
  have h4: "query emptyDb (countQuery ''public.producto'') = Inr [42]"
    by (simp add: emptyDb_def)
  have h4': "query emptyDb (countQuery (hd (foundTables (validateSqlTables sqlProducto [''public.Producto''])))) = Inr [42]"
    unfolding v using h4 by simp
  have n: "quotedName ''public.producto'' = quoted ''public'' @ ''.'' @ quoted ''producto''"
    by code_simp
  have s: "showInt (totalOf emptyDb [42]) = ''42''"
    by code_simp
  from empty_result_diagnostics [OF h1 h2 h3 h4', of "[]"] h1 h2 h3 h4 show ?thesis
    unfolding v list.sel n s by simp
qed

text \<open>
  C5, evaluated where the code departs from it. The table is the source's own example,
  \<open>"public"."Producto"\<close>: the query passes validation, is executed and returns no
  row. The found table is the lower-cased \<open>public.producto\<close>, so the count query is sent
  for \<open>"public"."producto"\<close>, a relation that does not exist; it fails, and the answer
  is the database error, with no row count.
\<close>

theorem empty_result_count_fails:
  "validateSqlTables sqlQuotedProducto [''public.Producto''] =
     \<lparr>ok = True, unknown = [], noneFound = False, foundTables = [''public.producto'']\<rparr>
   \<and> query productoDb sqlQuotedProducto = Inr []
   \<and> query productoDb (countQuery ''public.Producto'') = Inr [3]
   \<and> nodeExecuteSQL productoDb sqlQuotedProducto [''public.Producto''] [] =
       (Inr \<lparr>rows = [], answer = Some ''DB error: relation does not exist'', error = None\<rparr>,
        [Connect, Query sqlQuotedProducto, Query (countQuery ''public.producto''), Release])"
  by code_simp

text \<open>
  C6. When the query passes validation and the client is acquired, an error thrown by the
  query, or by the count query after an empty result, is caught: the node returns (it does
  not throw) no rows and the answer \<open>DB error: \<close> followed by the message of the error,
  or by \<open>Database error\<close> when the error has no message.
\<close>

theorem database_error_caught:
  assumes "ok (validateSqlTables sql allowedTables)"
    and "connectError db = None"
    and "query db sql = Inl err
       \<or> (query db sql = Inr []
          \<and> query db (countQuery (hd (foundTables (validateSqlTables sql allowedTables)))) = Inl err)"
  shows "fst (nodeExecuteSQL db sql allowedTables trace) =
           Inr \<lparr>rows = [], answer = Some (''DB error: '' @ errorMessage err), error = None\<rparr>"
proof -
  have q: "''SELECT COUNT(*)::int AS count FROM ''
         @ quoteIdent (nthOpt (splitOn dot (hd (foundTables (validateSqlTables sql allowedTables)))) 0)
         @ [dot]
         @ quoteIdent (nthOpt (splitOn dot (hd (foundTables (validateSqlTables sql allowedTables)))) 1)
       = countQuery (hd (foundTables (validateSqlTables sql allowedTables)))"
    by (simp add: countQuery_def quotedName_def)
  from assms(3) show ?thesis
  proof
    assume "query db sql = Inl err"
    then show ?thesis
      using assms(1,2) by (simp add: nodeExecuteSQL_def Let_def dbErrorAnswer_def errorMessage_def)
  next
    assume "query db sql = Inr []
          \<and> query db (countQuery (hd (foundTables (validateSqlTables sql allowedTables)))) = Inl err"
    then show ?thesis
      using assms(1,2) ok_first[OF assms(1)] q
      by (simp add: nodeExecuteSQL_def Let_def dbErrorAnswer_def errorMessage_def)
  qed
qed

theorem database_error_caught_witness:
  "ok (validateSqlTables sqlProducto [''public.Producto''])
   \<and> connectError failingDb = None
   \<and> query failingDb sqlProducto = Inl \<lparr>message = Some ''relation does not exist''\<rparr>
   \<and> fst (nodeExecuteSQL failingDb sqlProducto [''public.Producto''] []) =
        Inr \<lparr>rows = [], answer = Some ''DB error: relation does not exist'', error = None\<rparr>"
proof -
  have h1: "ok (validateSqlTables sqlProducto [''public.Producto''])"
    by (simp add: sqlProducto_ok)
  have h2: "connectError failingDb = None"
    by (simp add: failingDb_def)
  have h3: "query failingDb sqlProducto = Inl \<lparr>message = Some ''relation does not exist''\<rparr>"
    by (simp add: failingDb_def)
  have m: "errorMessage \<lparr>message = Some ''relation does not exist''\<rparr> = ''relation does not exist''"
    by (simp add: errorMessage_def)
  from database_error_caught [OF h1 h2 disjI1 [OF h3], of "[]"] h1 h2 h3 show ?thesis
    unfolding m by simp
qed

section \<open>RagService: blank questions\<close>

lemma trim_blank:
  assumes "list_all isSpaceChar s"
  shows "trim s = []"
proof -
  have d: "dropWhile isSpaceChar s = []"
    using assms by (induction s) auto
  show ?thesis unfolding trim_def d by simp
qed

text \<open>
  C7. For a question that is empty or has only white space, \<open>ask\<close> returns a response
  with \<open>ok = false\<close> whatever the agent is, and the world is the one it was given: the
  agent, and with it the database and the completion service, is not called.
\<close>

theorem ask_blank_rejected:
  assumes "list_all isSpaceChar question"
  shows "\<exists>resp. ask runSqlAgent question w = (Inr resp, w) \<and> \<not> okOf resp"
  using assms by (simp add: ask_def trim_blank)

theorem ask_blank_rejected_witness:
  "list_all isSpaceChar [] \<and> list_all isSpaceChar [CHR '' '', CHR 0x09, CHR 0x0A]
   \<and> (\<exists>resp. ask countingAgent [] (0::nat) = (Inr resp, 0) \<and> \<not> okOf resp)
   \<and> (\<exists>resp. ask countingAgent [CHR '' '', CHR 0x09, CHR 0x0A] (0::nat) = (Inr resp, 0) \<and> \<not> okOf resp)
   \<and> ask countingAgent ''precio'' (0::nat) = (Inr (AskAnswered ''precio'' ''precio''), 1)"
proof -
  have h1: "list_all isSpaceChar []"
    by simp
  have h2: "list_all isSpaceChar [CHR '' '', CHR 0x09, CHR 0x0A]"
    by code_simp
  have r: "ask countingAgent ''precio'' (0::nat) = (Inr (AskAnswered ''precio'' ''precio''), 1)"
    by code_simp
  from ask_blank_rejected [OF h1, of countingAgent 0] ask_blank_rejected [OF h2, of countingAgent 0] h1 h2 r
  show ?thesis by blast
qed

section \<open>ResultFormatter: coercion, and the sign of a rounded number\<close>

text \<open>
  The coercion removes white space and full stops and turns each comma into a full stop
  before it converts: the text \<open>1.234,56\<close> is converted as \<open>1234.56\<close>, whatever the
  conversion of the platform is.
\<close>

lemma toNumberMaybe_example:
  "toNumberMaybe number (JString ''1.234,56'') = number ''1234.56''"
  by (simp add: toNumberMaybe_def isSpaceChar_def dot_def)

lemma toNumberMaybe_no_separator:
  "\<forall>c \<in> set str. \<not> isSpaceChar c \<and> c \<noteq> dot \<and> c \<noteq> CHR '','' \<Longrightarrow>
     toNumberMaybe number (JString str) = number str"
proof -
  assume a: "\<forall>c \<in> set str. \<not> isSpaceChar c \<and> c \<noteq> dot \<and> c \<noteq> CHR '',''"
  have f1: "filter (\<lambda>c. \<not> isSpaceChar c) str = str"
    using a by (intro filter_True) simp
  have f2: "filter (\<lambda>c. c \<noteq> dot) str = str"
    using a by (intro filter_True) simp
  have m: "map (\<lambda>c. if c = CHR '','' then dot else c) str = str"
    using a by (intro map_idI) simp
  show ?thesis
    by (simp add: toNumberMaybe_def f1 f2 m)
qed

text \<open>
  The currency view of 1234.56 is \<open>$1.235\<close> and that of -1234.56 is \<open>-$1.235\<close>. For
  every finite number below -0.5 the view is a minus sign before the view of the rounded
  absolute value, and for every number from 0 on it is the view of the rounded number.
\<close>

lemma formatCLP_example:
  "formatCLP (JNumber (Fin (123456 / 100))) = ''$1.235''
   \<and> formatCLP (JNumber (Fin (- (123456 / 100)))) = ''-$1.235''"
  by code_simp

lemma formatCLP_negative:
  "x < - (1 / 2) \<Longrightarrow>
     formatCLP (JNumber (Fin x)) = ''-'' @ clpFmt (Fin (of_int (- \<lfloor>x + 1 / 2\<rfloor>)))"
proof -
  assume a: "x < - (1 / 2)"
  then have "\<lfloor>x + 1 / 2\<rfloor> < 0"
    by (simp add: floor_less_iff)
  then have n: "(of_int \<lfloor>x + 1 / 2\<rfloor> :: rat) < 0"
    by simp
  then have "\<bar>of_int \<lfloor>x + 1 / 2\<rfloor> :: rat\<bar> = of_int (- \<lfloor>x + 1 / 2\<rfloor>)"
    by simp
  with a n show ?thesis
    by (simp add: formatCLP_def mathRound_def lessZero_def mathAbs_def Let_def)
qed

lemma formatCLP_not_negative:
  "0 \<le> x \<Longrightarrow> formatCLP (JNumber (Fin x)) = clpFmt (Fin (of_int \<lfloor>x + 1 / 2\<rfloor>))"
proof -
  assume a: "0 \<le> x"
  then have "0 \<le> \<lfloor>x + 1 / 2\<rfloor>"
    by simp
  then have "\<not> (of_int \<lfloor>x + 1 / 2\<rfloor> :: rat) < 0"
    by simp
  with a show ?thesis
    by (simp add: formatCLP_def mathRound_def lessZero_def Let_def)
qed

lemma formatCLP_rounds_to_negative_zero:
  "- (1 / 2) \<le> x \<Longrightarrow> x < 0 \<Longrightarrow> formatCLP (JNumber (Fin x)) = ''$-0''"
proof -
  assume a: "- (1 / 2) \<le> x" "x < 0"
  have "clpFmt NegZero = ''$-0''"
    by code_simp
  with a show ?thesis
    by (simp add: formatCLP_def mathRound_def lessZero_def Let_def)
qed

text \<open>
  C8, evaluated where the code departs from it. The currency view of the negative number
  -0.25 is \<open>$-0\<close>: \<open>Math.round\<close> gives negative zero, for which \<open>rounded < 0\<close>
  is false, so the sign is not put before the peso sign as it is for \<open>-$1.235\<close>; the
  formatter of the platform prints the sign of negative zero after the peso sign.
\<close>

theorem formatCLP_negative_zero:
  "formatCLP (JNumber (Fin (- (1 / 4)))) = ''$-0''"
  by code_simp

section \<open>TableQualifier: what holds for every text\<close>

text \<open>
  A replacement whose callback returns each match as it is leaves the text as it is; a
  text with one match is the text before it, the callback's result, and the text after it.
\<close>

lemma replaceAll_unchanged:
  "matcherSound re \<Longrightarrow> \<forall>g \<in> set (execAll re prev s). \<forall>m0. f m0 g = m0 \<Longrightarrow>
     replaceAll re f prev s = s"
proof (induction re prev s rule: execAll.induct)
  case (1 re prev)
  have "re prev [] = None"
  proof (cases "re prev []")
    case None
    then show ?thesis .
  next
    case (Some p)
    obtain m0 g where "p = (m0, g)" by (cases p)
    with Some have "re prev [] = Some (m0, g)" by simp
    from matcherSoundD[OF "1.prems"(1) this] have "m0 \<noteq> [] \<and> take (length m0) [] = m0" .
    then have False by auto
    then show ?thesis ..
  qed
  then show ?case by simp
next
  case (2 re prev c cs)
  show ?case
  proof (cases "re prev (c # cs)")
    case None
    with 2 show ?thesis by simp
  next
    case (Some p)
    obtain m0 g where p: "p = (m0, g)" by (cases p)
    have "re prev (c # cs) = Some (m0, g)"
      using Some p by simp
    from matcherSoundD[OF "2.prems"(1) this]
    have snd: "m0 \<noteq> []" "take (length m0) (c # cs) = m0" by simp_all
    have f: "f m0 g = m0"
      using "2.prems"(2) Some p by simp
    have "\<forall>g \<in> set (execAll re (Some (last m0)) (drop (length m0) (c # cs))). \<forall>m0. f m0 g = m0"
      using "2.prems"(2) Some p snd(1) by simp
    from "2.IH"(2)[OF Some p[symmetric] snd(1) "2.prems"(1) this]
    have rest: "replaceAll re f (Some (last m0)) (drop (length m0) (c # cs)) = drop (length m0) (c # cs)" .
    have "replaceAll re f prev (c # cs) = m0 @ drop (length m0) (c # cs)"
      using Some p snd(1) f rest by simp
    also have "\<dots> = take (length m0) (c # cs) @ drop (length m0) (c # cs)"
      using snd(2) by simp
    finally show ?thesis by simp
  qed
qed


lemma reQualify_shape:
  assumes "reQualify prev s = Some (m0, (kw, t, tail))"
  shows "\<exists>ws. m0 = kw @ ws @ t \<and> (kw = ''FROM'' \<or> kw = ''JOIN'') \<and> ws \<noteq> []
            \<and> list_all isSpaceChar ws \<and> tail = []"
proof -
  from assms obtain r0 ws r1 r2 where k: "keywordAt False s = Some (kw, r0)"
    and w: "spacesAt r0 = Some (ws, r1)" and m: "m0 = kw @ ws @ t" and tl: "tail = []"
    by (auto simp: reQualify_def split: if_splits option.splits)
  from k have kw: "kw = ''FROM'' \<or> kw = ''JOIN''"
    by (auto simp: keywordAt_def Let_def split: if_splits)
  from w have ws: "ws = takeWhile isSpaceChar r0" "ws \<noteq> []"
    by (auto simp: spacesAt_def Let_def split: if_splits)
  have "list_all isSpaceChar ws"
    unfolding ws(1) list_all_iff using set_takeWhileD by fastforce
  with m kw ws(2) tl show ?thesis by blast
qed

lemma replaceAll_single:
  "matcherSound re \<Longrightarrow> execAll re prev s = [g] \<Longrightarrow>
     \<exists>pre m0 post prev'. s = pre @ m0 @ post \<and> re prev' (m0 @ post) = Some (m0, g)
        \<and> replaceAll re f prev s = pre @ f m0 g @ post"
proof (induction re prev s rule: execAll.induct)
  case (1 re prev)
  from "1.prems"(2) obtain m0 where m: "re prev [] = Some (m0, g)"
    by (auto split: option.splits)
  from matcherSoundD[OF "1.prems"(1) this] have "m0 \<noteq> [] \<and> take (length m0) [] = m0" .
  then have False by auto
  then show ?case ..
next
  case (2 re prev c cs)
  show ?case
  proof (cases "re prev (c # cs)")
    case None
    with "2.prems" have "execAll re (Some c) cs = [g]" by simp
    from "2.IH"(1)[OF None "2.prems"(1) this]
    obtain pre m0 post prev' where d: "cs = pre @ m0 @ post" "re prev' (m0 @ post) = Some (m0, g)"
      "replaceAll re f (Some c) cs = pre @ f m0 g @ post"
      by blast
    have "c # cs = (c # pre) @ m0 @ post" using d(1) by simp
    moreover have "replaceAll re f prev (c # cs) = (c # pre) @ f m0 g @ post"
      using None d(3) by simp
    ultimately show ?thesis using d(2) by blast
  next
    case (Some p)
    obtain m0 g' where p: "p = (m0, g')" by (cases p)
    have r: "re prev (c # cs) = Some (m0, g')"
      using Some p by simp
    from matcherSoundD[OF "2.prems"(1) this]
    have snd: "m0 \<noteq> []" "take (length m0) (c # cs) = m0" by simp_all
    let ?post = "drop (length m0) (c # cs)"
    from "2.prems"(2) r snd(1) have g: "g' = g" and e: "execAll re (Some (last m0)) ?post = []"
      by simp_all
    have "replaceAll re f (Some (last m0)) ?post = ?post"
      by (rule replaceAll_unchanged[OF "2.prems"(1)]) (simp add: e)
    then have ra: "replaceAll re f prev (c # cs) = [] @ f m0 g @ ?post"
      using r snd(1) g by simp
    have s: "c # cs = [] @ m0 @ ?post"
      using snd(2) append_take_drop_id[of "length m0" "c # cs"] by simp
    have "re prev (m0 @ ?post) = Some (m0, g)"
      using r g s by simp
    with s ra show ?thesis by blast
  qed
qed

text \<open>
  The map of the qualifier: a bare name has an entry exactly when one lower-cased
  allow-listed name has it as table part, and the entry is the text pushed for that name.
\<close>

lemma foldl_addSchema:
  "foldl addSchema m fqs k =
     (let es = map pushed (filter (\<lambda>fq. tablePart fq = k) fqs)
      in if es = [] then m k else Some ((case m k of None \<Rightarrow> [] | Some a \<Rightarrow> a) @ es))"
proof (induction fqs arbitrary: m)
  case Nil
  then show ?case by simp
next
  case (Cons fq fqs)
  show ?case
    by (simp add: Cons.IH Let_def) (auto simp: addSchema_def Let_def tablePart_def pushed_def)
qed

lemma uniqueMap_candidates:
  "uniqueMap allowedTables (Some (toLowerCase t)) =
     (if length (candidates allowedTables t) = 1 then Some (pushed (candidates allowedTables t ! 0)) else None)"
proof -
  have "tableToSchemas allowedTables (Some (toLowerCase t)) =
      (if candidates allowedTables t = [] then None else Some (map pushed (candidates allowedTables t)))"
    unfolding tableToSchemas_def foldl_addSchema candidates_def Let_def by simp
  then show ?thesis
    by (cases "candidates allowedTables t") (simp_all add: uniqueMap_def)
qed

lemma splitOn_nonempty: "splitOn d s \<noteq> []"
  by (induction s) (auto split: list.splits)

lemma splitOn_part_no_sep: "p \<in> set (splitOn d s) \<Longrightarrow> d \<notin> set p"
proof (induction s arbitrary: p)
  case Nil
  then show ?case by simp
next
  case (Cons c s)
  obtain q qs where q: "splitOn d s = q # qs"
    using splitOn_nonempty[of d s] by (cases "splitOn d s") auto
  show ?case
  proof (cases "c = d")
    case True
    with Cons show ?thesis by auto
  next
    case False
    with Cons.prems q have "p = c # q \<or> p \<in> set qs" by simp
    then show ?thesis
      using Cons.IH q False by auto
  qed
qed

lemma splitOn_two: "d \<notin> set a \<Longrightarrow> d \<notin> set b \<Longrightarrow> splitOn d (a @ d # b) = [a, b]"
  by (induction a) (auto simp: splitOn_no_sep)

lemma pushed_parts:
  assumes "tablePart fq = Some n"
  shows "pushed fq = hd (splitOn dot fq) @ [dot] @ n \<and> splitOn dot (pushed fq) = [hd (splitOn dot fq), n]"
proof -
  let ?ps = "splitOn dot fq"
  from assms have len: "1 < length ?ps" and n: "n = ?ps ! 1"
    by (auto simp: tablePart_def nthOpt_def split: if_splits)
  then have h: "nthOpt ?ps 0 = Some (hd ?ps)"
    by (cases ?ps) (auto simp: nthOpt_def)
  have p: "pushed fq = hd ?ps @ [dot] @ n"
    using assms h by (simp add: pushed_def tablePart_def templ_def)
  have "hd ?ps \<in> set ?ps" using len by (cases ?ps) auto
  then have a: "dot \<notin> set (hd ?ps)" by (rule splitOn_part_no_sep)
  have "n \<in> set ?ps" using len n by simp
  then have b: "dot \<notin> set n" by (rule splitOn_part_no_sep)
  show ?thesis using p splitOn_two[OF a b] by simp
qed

lemma qualifyMatch_bare:
  assumes "isBareName t"
  shows "qualifyMatch (uniqueMap allowedTables) m (kw, t, tail) =
     (if length (candidates allowedTables t) = 1
      then kw @ '' '' @ quoted (hd (splitOn dot (candidates allowedTables t ! 0))) @ [dot]
             @ quoted (toLowerCase t) @ tail
      else m)"
proof (cases "length (candidates allowedTables t) = 1")
  case False
  then show ?thesis
    by (simp add: qualifyMatch_def isBareName_parts[OF assms] uniqueMap_candidates)
next
  case True
  let ?c = "candidates allowedTables t ! 0"
  from True have "?c \<in> set (candidates allowedTables t)"
    by (cases "candidates allowedTables t") auto
  then have tp: "tablePart ?c = Some (toLowerCase t)"
    by (simp add: candidates_def)
  note pp = pushed_parts[OF tp]
  have ne: "pushed ?c \<noteq> []" using pp by simp
  have sp: "splitOn dot (pushed ?c) = [hd (splitOn dot ?c), toLowerCase t]"
    using pp by (rule conjunct2)
  have um: "uniqueMap allowedTables (Some (toLowerCase t)) = Some (pushed ?c)"
    using True by (simp add: uniqueMap_candidates)
  show ?thesis
    by (simp add: qualifyMatch_def isBareName_parts[OF assms] um ne sp True Let_def
        nthOpt_def templ_def quoted_def)
qed


text \<open>
  When no target of the scan is a single-part name with exactly one candidate (each is
  dotted, or has no candidate, or has several), the qualifier returns the text unchanged.
\<close>

lemma qualify_unchanged:
  assumes "\<forall>t \<in> set (qualifierTargets sql). \<forall>n. splitOn dot (stripQuotes t) = [n] \<longrightarrow>
             length (candidates allowedTables n) \<noteq> 1"
  shows "qualifySqlTables sql allowedTables = sql"
proof -
  have "\<forall>g \<in> set (execAll reQualify None sql). \<forall>m0. qualifyMatch (uniqueMap allowedTables) m0 g = m0"
  proof (intro ballI allI)
    fix g m0
    assume g: "g \<in> set (execAll reQualify None sql)"
    obtain kw t tail where gg: "g = (kw, t, tail)" by (cases g)
    with g have t: "t \<in> set (qualifierTargets sql)"
      by (force simp: qualifierTargets_def)
    show "qualifyMatch (uniqueMap allowedTables) m0 g = m0"
    proof (cases "length (splitOn dot (stripQuotes t)) = 1")
      case False
      then show ?thesis by (simp add: qualifyMatch_def gg)
    next
      case True
      then obtain n where n: "splitOn dot (stripQuotes t) = [n]"
        by (cases "splitOn dot (stripQuotes t)") auto
      with assms t have "length (candidates allowedTables n) \<noteq> 1" by blast
      then have "uniqueMap allowedTables (Some (toLowerCase n)) = None"
        by (simp add: uniqueMap_candidates)
      then show ?thesis by (simp add: qualifyMatch_def gg n)
    qed
  qed
  then show ?thesis
    unfolding qualifySqlTables_def by (rule replaceAll_unchanged[OF reQualify_sound])
qed

text \<open>
  When the scan has one match, its target a bare name with exactly one candidate \<open>fq\<close>,
  the qualifier replaces the keyword, the white space and the name by the keyword, one
  space and the quoted schema and table of \<open>fq\<close>, which is a lower-cased name.
\<close>

lemma qualify_unique:
  assumes "execAll reQualify None sql = [(kw, t, tail)]"
    and "isBareName t"
    and "candidates allowedTables t = [fq]"
  shows "\<exists>pre ws post. sql = pre @ kw @ ws @ t @ post \<and> (kw = ''FROM'' \<or> kw = ''JOIN'')
           \<and> ws \<noteq> [] \<and> list_all isSpaceChar ws
           \<and> qualifySqlTables sql allowedTables =
               pre @ kw @ '' '' @ quoted (hd (splitOn dot fq)) @ [dot] @ quoted (toLowerCase t) @ post"
proof -
  from replaceAll_single[OF reQualify_sound assms(1), of "qualifyMatch (uniqueMap allowedTables)"]
  obtain pre m0 post prev' where d: "sql = pre @ m0 @ post"
    "reQualify prev' (m0 @ post) = Some (m0, (kw, t, tail))"
    "qualifySqlTables sql allowedTables = pre @ qualifyMatch (uniqueMap allowedTables) m0 (kw, t, tail) @ post"
    unfolding qualifySqlTables_def by blast
  from reQualify_shape[OF d(2)] obtain ws where w: "m0 = kw @ ws @ t" "kw = ''FROM'' \<or> kw = ''JOIN''"
    "ws \<noteq> []" "list_all isSpaceChar ws" "tail = []"
    by blast
  have "qualifyMatch (uniqueMap allowedTables) m0 (kw, t, tail) =
      kw @ '' '' @ quoted (hd (splitOn dot fq)) @ [dot] @ quoted (toLowerCase t)"
    using assms(3) w(5) by (simp add: qualifyMatch_bare[OF assms(2)])
  with d(1,3) w show ?thesis by auto
qed

text \<open>
  So validation after qualification is validation of the text itself whenever the
  qualifier finds nothing to rewrite.
\<close>

lemma validate_qualify_unchanged:
  assumes "\<forall>t \<in> set (qualifierTargets sql). \<forall>n. splitOn dot (stripQuotes t) = [n] \<longrightarrow>
             length (candidates allowedTables n) \<noteq> 1"
  shows "validateSqlTables (qualifySqlTables sql allowedTables) allowedTables =
         validateSqlTables sql allowedTables"
  using qualify_unchanged[OF assms] by simp

section \<open>TableQualifier: where the code departs from the claims\<close>

text \<open>
  C3, evaluated where the code departs from it. The allow-list holds one table,
  \<open>public.Producto\<close>, and the text names it without a schema. The qualifier rewrites the
  name, but to the lower-cased \<open>"public"."producto"\<close>, not to the quoted form
  \<open>"public"."Producto"\<close> of the allow-listed table.
\<close>

theorem qualify_lowercases_table:
  "qualifySqlTables sqlFromProducto [''public.Producto''] =
     ''SELECT * FROM '' @ quoted ''public'' @ ''.'' @ quoted ''producto''
   \<and> qualifySqlTables sqlFromProducto [''public.Producto''] \<noteq>
     ''SELECT * FROM '' @ quoted ''public'' @ ''.'' @ quoted ''Producto''"
  by code_simp

text \<open>
  C9, evaluated where the code departs from it. Every table reference of the text is
  fully qualified, \<open>inventario.producto\<close>, and the allow-list has a table with the name of
  the schema, \<open>inventario.inventario\<close>. The qualifier takes the schema for a bare table
  name and rewrites it, and the validator then finds another table than before. With
  \<open>ventas.secreto\<close> and the allow-list \<open>archivo.ventas\<close> the same rewriting turns a text
  that fails validation into one that passes.
\<close>

theorem validate_after_qualify_differs:
  "tokenNames sqlInventario = [''inventario.producto'']
   \<and> qualifySqlTables sqlInventario inventarioTables =
       ''SELECT * FROM '' @ quoted ''inventario'' @ ''.'' @ quoted ''inventario'' @ ''.producto''
   \<and> validateSqlTables sqlInventario inventarioTables =
       \<lparr>ok = True, unknown = [], noneFound = False, foundTables = [''inventario.producto'']\<rparr>
   \<and> validateSqlTables (qualifySqlTables sqlInventario inventarioTables) inventarioTables =
       \<lparr>ok = True, unknown = [], noneFound = False, foundTables = [''inventario.inventario'']\<rparr>
   \<and> validateSqlTables (qualifySqlTables sqlInventario inventarioTables) inventarioTables \<noteq>
       validateSqlTables sqlInventario inventarioTables
   \<and> validateSqlTables sqlSecreto [''archivo.ventas''] =
       \<lparr>ok = False, unknown = [''ventas.secreto''], noneFound = False, foundTables = [''ventas.secreto'']\<rparr>
   \<and> validateSqlTables (qualifySqlTables sqlSecreto [''archivo.ventas'']) [''archivo.ventas''] =
       \<lparr>ok = True, unknown = [], noneFound = False, foundTables = [''archivo.ventas'']\<rparr>"
  by code_simp

end
